theory Spec2Isabelle
  imports Main "HOL-Library.Word" "HOL-Library.Multiset"
begin

unbundle bit_operations_syntax

section \<open>Bytes, errors and the external primitives\<close>

type_synonym byte = "8 word"

lemma u8_bound: "unat (w :: 8 word) < 256"
  using unsigned_less [of w, where 'a = nat] by simp

lemma u8_Suc: "unat (i + 1 :: 8 word) = (if unat i = 255 then 0 else Suc (unat i))"
  using u8_bound [of i] by (simp add: unat_word_ariths)

lemma u8_pred: "unat (i - 1 :: 8 word) = (if i = 0 then 255 else unat i - 1)"
proof (cases "i = 0")
  case True
  then show ?thesis by (simp add: unsigned_minus_1_eq_mask mask_eq_exp_minus_1)
next
  case False
  then show ?thesis by (simp add: unat_minus_one)
qed

text \<open>
  The Go code reports failures as \<open>error\<close> values built from message strings, and a slice
  index out of range is a run-time panic. Both are results of the model. The constructors
  are the error kinds of the specification; the comment at each use gives the message of
  the source.
\<close>

datatype err =
    InvalidLength
  | InvalidEncoding
  | InvalidParameters
  | InvalidPeers
  | InsufficientParts
  | InconsistentIndex
  | CommitmentMismatch
  | RandomnessFailure
  | Panic

text \<open>
  The package \<open>github.com/gtank/ristretto255\<close> is not part of the repository. Its two
  types are type parameters of the model: the scalars \<open>'s\<close> are a field, so that
  \<open>NewScalar()\<close> is \<open>0\<close>, \<open>Add\<close>, \<open>Subtract\<close> and \<open>Multiply\<close> are \<open>+\<close>, \<open>-\<close> and \<open>*\<close>,
  and \<open>Invert\<close> is \<open>inverse\<close> (which maps \<open>0\<close> to \<open>0\<close>, as the library does); the elements
  \<open>'e\<close> are an abelian group, so that \<open>NewElement()\<close> is \<open>0\<close> and \<open>Add\<close> is \<open>+\<close>. The
  remaining operations of the library are the fields of a record.
\<close>

record ('s, 'e) ristretto255 =
  ScalarDecode :: "byte list \<Rightarrow> 's option"
  ScalarEncode :: "'s \<Rightarrow> byte list"
  ScalarFromUniformBytes :: "byte list \<Rightarrow> 's"
  ElementDecode :: "byte list \<Rightarrow> 'e option"
  ElementEncode :: "'e \<Rightarrow> byte list"
  ElementFromUniformBytes :: "byte list \<Rightarrow> 'e"
  ScalarMult :: "'s \<Rightarrow> 'e \<Rightarrow> 'e"
  ScalarBaseMult :: "'s \<Rightarrow> 'e"

text \<open>
  What the model assumes of the library: a byte followed by 31 zero bytes decodes to the
  field element of that number, the numbers 1..255 are not zero in the field, both
  encodings have 32 bytes and decode to what was encoded, and scalar multiplication is a
  module action of the scalar field on the group.
\<close>

definition ristretto255_laws :: "('s::field, 'e::ab_group_add) ristretto255 \<Rightarrow> bool" where
  "ristretto255_laws R \<longleftrightarrow>
     (\<forall>v::byte. ScalarDecode R (v # replicate 31 0) = Some (of_nat (unat v))) \<and>
     (\<forall>n::nat. 0 < n \<and> n < 256 \<longrightarrow> (of_nat n :: 's) \<noteq> 0) \<and>
     (\<forall>s. ScalarDecode R (ScalarEncode R s) = Some s) \<and>
     (\<forall>s. length (ScalarEncode R s) = 32) \<and>
     (\<forall>e. ElementDecode R (ElementEncode R e) = Some e) \<and>
     (\<forall>e. length (ElementEncode R e) = 32) \<and>
     (\<forall>a b e. ScalarMult R (a + b) e = ScalarMult R a e + ScalarMult R b e) \<and>
     (\<forall>a e f. ScalarMult R a (e + f) = ScalarMult R a e + ScalarMult R a f) \<and>
     (\<forall>a b e. ScalarMult R (a * b) e = ScalarMult R a (ScalarMult R b e)) \<and>
     (\<forall>e. ScalarMult R 1 e = e)"

text \<open>
  \<open>crypto/sha512\<close> is a parameter \<open>H\<close> of the hashing functions: \<open>h.Write\<close> of several
  pieces followed by \<open>h.Sum(nil)\<close> is \<open>H\<close> of their concatenation. A digest has 64 bytes.
\<close>

definition sha512_laws :: "(byte list \<Rightarrow> byte list) \<Rightarrow> bool" where
  "sha512_laws H \<longleftrightarrow> (\<forall>m. length (H m) = 64)"

text \<open>
  \<open>crypto/rand.Read\<close> is a parameter \<open>rnd\<close>: \<open>rnd i\<close> is the outcome of the \<open>i\<close>-th read
  of 64 bytes made by a call, \<open>None\<close> when the read returns an error.
\<close>

type_synonym rand_source = "nat \<Rightarrow> byte list option"

section \<open>oprf/oprf.go\<close>

definition bytes_of :: "string \<Rightarrow> byte list" where
  "bytes_of s = map (\<lambda>c. of_nat (of_char c)) s"

definition HashToGroupDST :: "byte list" where
  "HashToGroupDST = bytes_of ''HashToGroup-OPRFV1-'' @ [0] @ bytes_of ''-ristretto255-SHA512''"

definition FinalizeDST :: "byte list" where
  "FinalizeDST = bytes_of ''Finalize''"

text \<open>Go's \<open>int\<close> is 64 bits wide and wraps; its \<open>/\<close> truncates towards zero.\<close>

definition wrap64 :: "int \<Rightarrow> int" where
  "wrap64 x = sint (word_of_int x :: 64 word)"

definition go_div :: "int \<Rightarrow> int \<Rightarrow> int" where
  "go_div a b = sgn a * sgn b * (\<bar>a\<bar> div \<bar>b\<bar>)"

text \<open>\<open>binary.BigEndian.PutUint16\<close> into a fresh buffer of two bytes.\<close>

definition PutUint16 :: "16 word \<Rightarrow> byte list" where
  "PutUint16 v = [ucast (drop_bit 8 v), ucast v]"

text \<open>
  The inner loop \<open>xorResult[j] = b0[j] ^ bPrev[j]\<close> for \<open>j < 64\<close>; an index beyond
  either slice panics.
\<close>

definition strxor :: "byte list \<Rightarrow> byte list \<Rightarrow> err + byte list" where
  "strxor b0 bPrev =
     (if length b0 < 64 \<or> length bPrev < 64 then Inl Panic
      else Inr (map (\<lambda>j. b0 ! j XOR bPrev ! j) [0..<64]))"

text \<open>The loop \<open>for i := 2; i <= ell; i++\<close> of \<open>expandMessageXMD\<close>.\<close>

function xmd_loop ::
  "(byte list \<Rightarrow> byte list) \<Rightarrow> byte list \<Rightarrow> byte list \<Rightarrow> int \<Rightarrow> int \<Rightarrow> byte list \<Rightarrow> byte list
     \<Rightarrow> err + byte list" where
  "xmd_loop H b0 dstPrime ell i bPrev uniformBytes =
     (if i \<le> ell then
        (case strxor b0 bPrev of
           Inl e \<Rightarrow> Inl e
         | Inr xorResult \<Rightarrow>
             (let bi = H (xorResult @ [word_of_int i] @ dstPrime)
              in xmd_loop H b0 dstPrime ell (i + 1) bi (uniformBytes @ bi)))
      else Inr uniformBytes)"
  by pat_completeness auto
termination
  by (relation "measure (\<lambda>(H, b0, dstPrime, ell, i, bPrev, uniformBytes). nat (ell + 1 - i))") auto

text \<open>
  \<open>expandMessageXMD\<close>. The only check is \<open>ell > 255\<close> (message "lenInBytes too large for
  expand_message_xmd"); the length byte of \<open>dstPrime\<close> is \<open>byte(len(dst))\<close> and the length
  prefix is \<open>uint16(lenInBytes)\<close>, both truncating. \<open>make\<close> with a negative capacity and a
  slice bound out of range panic.
\<close>

definition expandMessageXMD ::
  "(byte list \<Rightarrow> byte list) \<Rightarrow> byte list \<Rightarrow> byte list \<Rightarrow> int \<Rightarrow> err + byte list" where
  "expandMessageXMD H msg dst lenInBytes =
     (let ell = go_div (wrap64 (lenInBytes + 64 - 1)) 64 in
      if ell > 255 then Inl InvalidLength
      else
        let dstPrime = dst @ [of_nat (length dst)];
            zPad = replicate 128 0;
            libStr = PutUint16 (word_of_int lenInBytes);
            b0 = H (zPad @ msg @ libStr @ [0] @ dstPrime);
            b1 = H (b0 @ [1] @ dstPrime)
        in if ell < 0 then Inl Panic
           else
             (case xmd_loop H b0 dstPrime ell 2 b1 b1 of
                Inl e \<Rightarrow> Inl e
              | Inr uniformBytes \<Rightarrow>
                  if lenInBytes < 0 \<or> int (length uniformBytes) < lenInBytes then Inl Panic
                  else Inr (take (nat lenInBytes) uniformBytes)))"

definition hashToGroup ::
  "('s, 'e) ristretto255 \<Rightarrow> (byte list \<Rightarrow> byte list) \<Rightarrow> byte list \<Rightarrow> err + 'e" where
  "hashToGroup R H msg =
     (case expandMessageXMD H msg HashToGroupDST 64 of
        Inl e \<Rightarrow> Inl e
      | Inr uniformBytes \<Rightarrow> Inr (ElementFromUniformBytes R uniformBytes))"

text \<open>
  \<open>Blind\<close>. The argument \<open>blind\<close> is \<open>None\<close> for Go's \<open>nil\<close>. Messages: "blind must be 32
  bytes" (\<open>InvalidLength\<close>), "invalid blind scalar" (\<open>InvalidEncoding\<close>), "failed to generate
  random bytes" (\<open>RandomnessFailure\<close>).
\<close>

definition Blind ::
  "('s::field, 'e::ab_group_add) ristretto255 \<Rightarrow> (byte list \<Rightarrow> byte list) \<Rightarrow> rand_source
     \<Rightarrow> byte list \<Rightarrow> byte list option \<Rightarrow> err + (byte list \<times> byte list)" where
  "Blind R H rnd input blind =
     (case hashToGroup R H input of
        Inl e \<Rightarrow> Inl e
      | Inr h0 \<Rightarrow>
          (case blind of
             Some b \<Rightarrow>
               if length b \<noteq> 32 then Inl InvalidLength
               else (case ScalarDecode R b of
                       None \<Rightarrow> Inl InvalidEncoding
                     | Some rScalar \<Rightarrow> Inr (b, ElementEncode R (ScalarMult R rScalar h0)))
           | None \<Rightarrow>
               (case rnd 0 of
                  None \<Rightarrow> Inl RandomnessFailure
                | Some randomBytes \<Rightarrow>
                    (let rScalar = ScalarFromUniformBytes R randomBytes
                     in Inr (ScalarEncode R rScalar,
                             ElementEncode R (ScalarMult R rScalar h0))))))"

text \<open>
  \<open>oprf.Evaluate\<close>. Messages: "private key must be 32 bytes", "alpha must be 32 bytes"
  (\<open>InvalidLength\<close>), "invalid private key", "invalid alpha element" (\<open>InvalidEncoding\<close>).
\<close>

definition Evaluate ::
  "('s::field, 'e::ab_group_add) ristretto255 \<Rightarrow> byte list \<Rightarrow> byte list \<Rightarrow> err + byte list" where
  "Evaluate R k alpha =
     (if length k \<noteq> 32 then Inl InvalidLength
      else if length alpha \<noteq> 32 then Inl InvalidLength
      else (case ScalarDecode R k of
              None \<Rightarrow> Inl InvalidEncoding
            | Some kScalar \<Rightarrow>
                (case ElementDecode R alpha of
                   None \<Rightarrow> Inl InvalidEncoding
                 | Some alphaElement \<Rightarrow>
                     Inr (ElementEncode R (ScalarMult R kScalar alphaElement)))))"

definition Unblind ::
  "('s::field, 'e::ab_group_add) ristretto255 \<Rightarrow> byte list \<Rightarrow> byte list \<Rightarrow> err + byte list" where
  "Unblind R r beta =
     (if length r \<noteq> 32 then Inl InvalidLength
      else if length beta \<noteq> 32 then Inl InvalidLength
      else (case ScalarDecode R r of
              None \<Rightarrow> Inl InvalidEncoding
            | Some rScalar \<Rightarrow>
                (case ElementDecode R beta of
                   None \<Rightarrow> Inl InvalidEncoding
                 | Some betaElement \<Rightarrow>
                     (let rInv = inverse rScalar
                      in Inr (ElementEncode R (ScalarMult R rInv betaElement))))))"

text \<open>
  \<open>Finalize\<close>. The only check is the length of \<open>n\<close> ("n must be 32 bytes"); both length
  prefixes are written through \<open>uint16(len(...))\<close>.
\<close>

definition Finalize :: "(byte list \<Rightarrow> byte list) \<Rightarrow> byte list \<Rightarrow> byte list \<Rightarrow> err + byte list" where
  "Finalize H input n =
     (if length n \<noteq> 32 then Inl InvalidLength
      else Inr (H (PutUint16 (of_nat (length input)) @ input
                   @ PutUint16 (of_nat (length n)) @ n @ FinalizeDST)))"

section \<open>toprf/toprf.go\<close>

record 's Share =
  Index :: "8 word"
  Value :: 's

text \<open>The field \<open>Index\<close> of \<open>Part\<close> is \<open>PartIndex\<close> here: a record field name is global.\<close>

record 'e Part =
  PartIndex :: "8 word"
  Element :: 'e

text \<open>
  \<open>Part.MarshalBinary\<close>: a buffer of 33 zero bytes, the index at position 0, then
  \<open>copy(data[1:], Encode)\<close>, which copies at most 32 bytes. (A pointer that is \<open>nil\<close> has
  no counterpart in the model.)
\<close>

definition Part_MarshalBinary :: "('s, 'e) ristretto255 \<Rightarrow> 'e Part \<Rightarrow> err + byte list" where
  "Part_MarshalBinary R p =
     (let enc = ElementEncode R (Element p)
      in Inr (PartIndex p # take 32 enc @ replicate (32 - length enc) 0))"

text \<open>\<open>Part.UnmarshalBinary\<close>: "toprf: invalid part length", or the error of \<open>Decode\<close>.\<close>

definition Part_UnmarshalBinary :: "('s, 'e) ristretto255 \<Rightarrow> byte list \<Rightarrow> err + 'e Part" where
  "Part_UnmarshalBinary R data =
     (if length data \<noteq> 33 then Inl InvalidLength
      else (case ElementDecode R (tl data) of
              None \<Rightarrow> Inl InvalidEncoding
            | Some e \<Rightarrow> Inr \<lparr>PartIndex = hd data, Element = e\<rparr>))"

text \<open>
  \<open>scalarFromUint8\<close> (the same function in \<open>toprf\<close> and \<open>dkg\<close>): the error of \<open>Decode\<close>
  is dropped, and a failed \<open>Decode\<close> leaves the fresh scalar at zero.
\<close>

definition scalarFromUint8 :: "('s::field, 'e) ristretto255 \<Rightarrow> 8 word \<Rightarrow> 's" where
  "scalarFromUint8 R v =
     (case ScalarDecode R (v # replicate 31 0) of Some s \<Rightarrow> s | None \<Rightarrow> 0)"

text \<open>
  The loop \<open>for _, peer := range peers\<close> of \<open>lcoeff\<close>, on the pair (dividend, divisor).
  \<open>tmp.Subtract(peerScalar, xScalar)\<close> is \<open>peerScalar - xScalar\<close> in the library; the
  dividend and the divisor take one such factor each per peer, so the quotient is the same
  with the operands in the other order.
\<close>

fun lcoeff_loop ::
  "('s::field, 'e) ristretto255 \<Rightarrow> 's \<Rightarrow> 's \<Rightarrow> 8 word \<Rightarrow> 8 word list \<Rightarrow> 's \<times> 's \<Rightarrow> 's \<times> 's" where
  "lcoeff_loop R xScalar iScalar index [] (dividend, divisor) = (dividend, divisor)"
| "lcoeff_loop R xScalar iScalar index (peer # peers) (dividend, divisor) =
     (if peer = index then lcoeff_loop R xScalar iScalar index peers (dividend, divisor)
      else
        (let peerScalar = scalarFromUint8 R peer
         in lcoeff_loop R xScalar iScalar index peers
              (dividend * (peerScalar - xScalar), divisor * (peerScalar - iScalar))))"

definition lcoeff :: "('s::field, 'e) ristretto255 \<Rightarrow> 8 word \<Rightarrow> 8 word \<Rightarrow> 8 word list \<Rightarrow> 's" where
  "lcoeff R index x peers =
     (let xScalar = scalarFromUint8 R x;
          iScalar = scalarFromUint8 R index;
          (dividend, divisor) =
             lcoeff_loop R xScalar iScalar index peers (scalarFromUint8 R 1, scalarFromUint8 R 1)
      in dividend * inverse divisor)"

definition coeff :: "('s::field, 'e) ristretto255 \<Rightarrow> 8 word \<Rightarrow> 8 word list \<Rightarrow> 's" where
  "coeff R index peers = lcoeff R index 0 peers"

text \<open>The second loop of \<open>InterpolateScalar\<close>; \<open>indexes\<close> is filled by the first.\<close>

fun interpolate_loop ::
  "('s::field, 'e) ristretto255 \<Rightarrow> 8 word \<Rightarrow> 8 word list \<Rightarrow> 's Share list \<Rightarrow> 's \<Rightarrow> 's" where
  "interpolate_loop R x indexes [] result = result"
| "interpolate_loop R x indexes (share # shares) result =
     (let l = lcoeff R (Index share) x indexes;
          term = l * Value share
      in interpolate_loop R x indexes shares (result + term))"

text \<open>\<open>InterpolateScalar\<close>: "toprf: no shares provided" is \<open>InsufficientParts\<close>.\<close>

definition InterpolateScalar ::
  "('s::field, 'e) ristretto255 \<Rightarrow> 8 word \<Rightarrow> 's Share list \<Rightarrow> err + 's" where
  "InterpolateScalar R x shares =
     (if length shares = 0 then Inl InsufficientParts
      else Inr (interpolate_loop R x (map Index shares) shares 0))"

text \<open>
  The first loop of \<open>CreateShares\<close>: one \<open>rand.Read\<close> of 64 bytes for each of the
  \<open>threshold - 1\<close> coefficients, in order; an error of \<open>rand.Read\<close> is returned.
\<close>

fun gen_coeffs :: "('s, 'e) ristretto255 \<Rightarrow> rand_source \<Rightarrow> nat \<Rightarrow> nat \<Rightarrow> err + 's list" where
  "gen_coeffs R rnd i 0 = Inr []"
| "gen_coeffs R rnd i (Suc len) =
     (case rnd i of
        None \<Rightarrow> Inl RandomnessFailure
      | Some randBytes \<Rightarrow>
          (case gen_coeffs R rnd (Suc i) len of
             Inl e \<Rightarrow> Inl e
           | Inr coeffs \<Rightarrow> Inr (ScalarFromUniformBytes R randBytes # coeffs)))"

text \<open>
  The value of one share: \<open>0 + secret\<close>, then for \<open>j < threshold - 1\<close> the term
  \<open>coeffs[j] * x\<close>, multiplied \<open>j\<close> more times by \<open>x\<close>, is added. (\<open>coeffs\<close> has
  \<open>threshold - 1\<close> entries, so \<open>coeffs[j]\<close> is in range.)
\<close>

definition share_value :: "'s::field \<Rightarrow> 's list \<Rightarrow> 8 word \<Rightarrow> 's \<Rightarrow> 's" where
  "share_value secret coeffs threshold x =
     fold (\<lambda>j val. val + ((\<lambda>term. term * x) ^^ j) (coeffs ! j * x))
       [0..<unat (threshold - 1)] (0 + secret)"

text \<open>
  The loop \<open>for i := uint8(1); i <= n; i++\<close> of \<open>CreateShares\<close>, with the counter as the
  byte it is. \<open>shares\<close> is \<open>make([]Share, n)\<close>, so the index \<open>i - 1\<close> is checked against
  \<open>n\<close>.
\<close>

function share_loop ::
  "('s::field, 'e) ristretto255 \<Rightarrow> 's \<Rightarrow> 's list \<Rightarrow> 8 word \<Rightarrow> 8 word \<Rightarrow> 8 word \<Rightarrow> 's Share list
     \<Rightarrow> err + 's Share list" where
  "share_loop R secret coeffs threshold n i shares =
     (if i \<le> n then
        (if unat (i - 1) < unat n then
           share_loop R secret coeffs threshold n (i + 1)
             (shares[unat (i - 1) :=
                \<lparr>Index = i, Value = share_value secret coeffs threshold (scalarFromUint8 R i)\<rparr>])
         else Inl Panic)
      else Inr shares)"
  by pat_completeness auto
termination
proof (relation "measure (\<lambda>(R, secret, coeffs, threshold, n, i, shares).
                    if i = 0 then 0 else 257 - unat i)", goal_cases)
  case 1
  show ?case by simp
next
  case (2 R secret coeffs threshold n i shares)
  then show ?case
    using u8_bound [of n] u8_bound [of i]
    by (auto simp: u8_pred u8_Suc unat_eq_0 [symmetric] simp del: unat_eq_0 split: if_splits)
qed

text \<open>
  \<open>CreateShares\<close>. Both checks return "invalid threshold parameters" / "threshold cannot
  exceed n" (\<open>InvalidParameters\<close>).
\<close>

definition CreateShares ::
  "('s::field, 'e) ristretto255 \<Rightarrow> rand_source \<Rightarrow> 's \<Rightarrow> 8 word \<Rightarrow> 8 word \<Rightarrow> err + 's Share list" where
  "CreateShares R rnd secret n threshold =
     (if threshold < 1 \<or> n < threshold then Inl InvalidParameters
      else if threshold > n then Inl InvalidParameters
      else
        (case gen_coeffs R rnd 0 (unat (threshold - 1)) of
           Inl e \<Rightarrow> Inl e
         | Inr coeffs \<Rightarrow>
             share_loop R secret coeffs threshold n 1
               (replicate (unat n) \<lparr>Index = 0, Value = 0\<rparr>)))"

text \<open>
  \<open>toprf.Evaluate\<close>: "toprf: invalid blinded element length", or the error of \<open>Decode\<close>.
  The peer list \<open>indexes\<close> is passed to \<open>coeff\<close> as it is.
\<close>

definition toprf_Evaluate ::
  "('s::field, 'e::ab_group_add) ristretto255 \<Rightarrow> 's Share \<Rightarrow> byte list \<Rightarrow> 8 word list
     \<Rightarrow> err + byte list" where
  "toprf_Evaluate R share blinded indexes =
     (if length blinded \<noteq> 32 then Inl InvalidLength
      else
        (let c = coeff R (Index share) indexes;
             adjustedKey = Value share * c
         in (case ElementDecode R blinded of
               None \<Rightarrow> Inl InvalidEncoding
             | Some alpha \<Rightarrow>
                 (let beta = ScalarMult R adjustedKey alpha
                  in Part_MarshalBinary R \<lparr>PartIndex = Index share, Element = beta\<rparr>))))"

text \<open>The loop of \<open>ThresholdCombine\<close> that parses the responses, stopping at the first error.\<close>

fun unmarshal_parts :: "('s, 'e) ristretto255 \<Rightarrow> byte list list \<Rightarrow> err + 'e Part list" where
  "unmarshal_parts R [] = Inr []"
| "unmarshal_parts R (resp # responses) =
     (case Part_UnmarshalBinary R resp of
        Inl e \<Rightarrow> Inl e
      | Inr p \<Rightarrow>
          (case unmarshal_parts R responses of
             Inl e \<Rightarrow> Inl e
           | Inr parts \<Rightarrow> Inr (p # parts)))"

text \<open>The two nested loops that sort the parts by index, swapping in place.\<close>

definition sort_step :: "'e Part list \<Rightarrow> nat \<Rightarrow> nat \<Rightarrow> 'e Part list" where
  "sort_step parts i j =
     (if PartIndex (parts ! j) < PartIndex (parts ! i)
      then parts[i := parts ! j, j := parts ! i] else parts)"

definition sort_parts :: "'e Part list \<Rightarrow> 'e Part list" where
  "sort_parts parts =
     fold (\<lambda>i ps. fold (\<lambda>j ps'. sort_step ps' i j) [i + 1..<length ps] ps)
       [0..<length parts - 1] parts"

text \<open>
  \<open>ThresholdCombine\<close>: "toprf: no responses to combine" (\<open>InsufficientParts\<close>), "toprf: too
  many responses" (\<open>InvalidLength\<close>).
\<close>

definition ThresholdCombine ::
  "('s, 'e::ab_group_add) ristretto255 \<Rightarrow> byte list list \<Rightarrow> err + byte list" where
  "ThresholdCombine R responses =
     (if length responses = 0 then Inl InsufficientParts
      else if length responses > 255 then Inl InvalidLength
      else
        (case unmarshal_parts R responses of
           Inl e \<Rightarrow> Inl e
         | Inr parts \<Rightarrow>
             Inr (ElementEncode R (fold (\<lambda>part result. result + Element part) (sort_parts parts) 0))))"

section \<open>dkg/dkg.go\<close>



text \<open>The loop of \<open>Finish\<close>: "dkg: share has incorrect index" is \<open>InconsistentIndex\<close>.\<close>

fun finish_loop :: "'s::field Share list \<Rightarrow> 8 word \<Rightarrow> 's \<Rightarrow> err + 's" where
  "finish_loop [] self result = Inr result"
| "finish_loop (share # shares) self result =
     (if Index share \<noteq> self then Inl InconsistentIndex
      else finish_loop shares self (result + Value share))"

definition Finish :: "'s::field Share list \<Rightarrow> 8 word \<Rightarrow> err + 's Share" where
  "Finish shares self =
     (case finish_loop shares self 0 of
        Inl e \<Rightarrow> Inl e
      | Inr result \<Rightarrow> Inr \<lparr>Index = self, Value = result\<rparr>)"

declare xmd_loop.simps [simp del]
declare share_loop.simps [simp del]

section \<open>A small instance of the library\<close>

text \<open>
  The integers modulo the prime 257 are a field in which the numbers 1..255 are not zero.
  Taken both as the scalars and, with addition, as the group, and encoded in 32 bytes
  little-endian, they satisfy \<open>ristretto255_laws\<close>; the concrete inputs below are
  evaluated in this instance.
\<close>

lemma find_SomeD: "find P xs = Some x \<Longrightarrow> x \<in> set xs \<and> P x"
  by (induction xs) (auto split: if_splits)

lemma find_ex: "\<exists>x\<in>set xs. P x \<Longrightarrow> \<exists>y. find P xs = Some y"
  by (induction xs) auto

lemma no_divisor_257: "\<forall>d\<in>{2..<257::nat}. \<not> d dvd 257"
proof -
  have "list_all (\<lambda>d. \<not> d dvd (257::nat)) [2..<257]" by simp
  then show ?thesis by (simp only: list_all_iff set_upt)
qed

lemma coprime_257:
  assumes "0 < a" "a < (257::int)"
  shows "coprime a 257"
proof -
  define d where "d = gcd (nat a) 257"
  have d1: "d dvd 257" and d2: "d dvd nat a"
    by (simp_all add: d_def)
  from d2 assms have "d \<le> nat a"
    by (intro dvd_imp_le) auto
  with assms have "d < 257" by simp
  moreover have "d \<noteq> 0"
    using d1 by (metis dvd_0_left_iff zero_neq_numeral)
  ultimately have "d = 1"
    using no_divisor_257 d1 by (cases "d = 1") (auto simp: Ball_def)
  then have "gcd (nat a) (nat 257) = 1"
    by (simp add: d_def)
  then have "gcd a 257 = 1"
    using assms by (metis gcd_int_int_eq int_nat_eq int_ops(2) less_imp_le zero_le_numeral)
  then show ?thesis
    by (simp add: coprime_iff_gcd_eq_1)
qed

lemma inv_exists_257:
  assumes "0 < a" "a < (257::int)"
  shows "\<exists>b\<in>{0..<257}. a * b mod 257 = 1"
proof -
  from coprime_257 [OF assms] have "gcd a 257 = 1"
    by (simp add: coprime_iff_gcd_eq_1)
  then obtain u v where uv: "u * a + v * 257 = 1"
    using bezout_int [of a 257] by auto
  have "a * (u mod 257) mod 257 = (u * a) mod 257"
    by (simp add: mod_simps mult.commute)
  also have "\<dots> = (u * a + v * 257) mod 257"
    by simp
  also have "\<dots> = 1"
    by (simp only: uv) simp
  finally have "a * (u mod 257) mod 257 = 1" .
  moreover have "u mod 257 \<in> {0..<257}" by simp
  ultimately show ?thesis by blast
qed


definition inv257 :: "int \<Rightarrow> int" where
  "inv257 a = (case find (\<lambda>b. a * b mod 257 = 1) [0..256] of Some b \<Rightarrow> b | None \<Rightarrow> 0)"

lemma inv257_range: "inv257 a \<in> {0..<257}"
proof (cases "find (\<lambda>b. a * b mod 257 = 1) [0..256]")
  case None
  then show ?thesis by (simp add: inv257_def)
next
  case (Some b)
  from find_SomeD [OF Some] have "b \<in> {0..256}" by simp
  then show ?thesis
    using Some by (simp add: inv257_def)
qed

lemma inv257_law:
  assumes "0 < a" "a < 257"
  shows "inv257 a * a mod 257 = 1"
proof -
  from inv_exists_257 [OF assms] have "\<exists>b\<in>set [0..256]. a * b mod 257 = 1"
    by auto
  from find_ex [OF this] obtain b where b: "find (\<lambda>b. a * b mod 257 = 1) [0..256] = Some b"
    by blast
  from find_SomeD [OF b] have "a * b mod 257 = 1" by simp
  with b show ?thesis
    by (simp add: inv257_def mult.commute)
qed

lemma inv257_zero: "inv257 0 = 0"
proof -
  have "find (\<lambda>b. (0::int) * b mod 257 = 1) xs = None" for xs
    by (induction xs) auto
  then show ?thesis by (simp add: inv257_def)
qed


typedef gf257 = "{0..<257::int}"
  by auto

setup_lifting type_definition_gf257

instantiation gf257 :: field
begin

lift_definition zero_gf257 :: gf257 is 0 by simp
lift_definition one_gf257 :: gf257 is 1 by simp
lift_definition plus_gf257 :: "gf257 \<Rightarrow> gf257 \<Rightarrow> gf257" is "\<lambda>a b. (a + b) mod 257" by simp
lift_definition minus_gf257 :: "gf257 \<Rightarrow> gf257 \<Rightarrow> gf257" is "\<lambda>a b. (a - b) mod 257" by simp
lift_definition uminus_gf257 :: "gf257 \<Rightarrow> gf257" is "\<lambda>a. (- a) mod 257" by simp
lift_definition times_gf257 :: "gf257 \<Rightarrow> gf257 \<Rightarrow> gf257" is "\<lambda>a b. (a * b) mod 257" by simp
lift_definition inverse_gf257 :: "gf257 \<Rightarrow> gf257" is inv257 by (rule inv257_range)
lift_definition divide_gf257 :: "gf257 \<Rightarrow> gf257 \<Rightarrow> gf257" is "\<lambda>a b. (a * inv257 b) mod 257" by simp

instance
proof
  fix a b c :: gf257
  show "a + b + c = a + (b + c)" by transfer (simp add: mod_simps algebra_simps)
  show "a + b = b + a" by transfer (simp add: algebra_simps)
  show "0 + a = a" by transfer simp
  show "- a + a = 0" by transfer (simp add: mod_simps)
  show "a - b = a + - b" by transfer (simp add: mod_simps)
  show "a * b * c = a * (b * c)" by transfer (simp add: mod_simps algebra_simps)
  show "a * b = b * a" by transfer (simp add: algebra_simps)
  show "1 * a = a" by transfer simp
  show "(a + b) * c = a * c + b * c" by transfer (simp add: mod_simps algebra_simps)
  show "(0::gf257) \<noteq> 1" by transfer simp
  show "a \<noteq> 0 \<Longrightarrow> inverse a * a = 1"
  proof transfer
    fix a :: int
    assume "a \<in> {0..<257}" "a \<noteq> 0"
    then show "inv257 a * a mod 257 = 1"
      by (intro inv257_law) auto
  qed
  show "a div b = a * inverse b" by transfer (rule refl)
  show "inverse (0::gf257) = 0" by transfer (rule inv257_zero)
qed

end


lemma Rep_gf257_of_nat: "Rep_gf257 (of_nat n) = int n mod 257"
proof (induction n)
  case 0
  show ?case by (simp add: zero_gf257.rep_eq)
next
  case (Suc n)
  then show ?case
    by (simp add: plus_gf257.rep_eq one_gf257.rep_eq mod_simps add.commute)
qed

lemma of_nat_Rep_gf257: "of_nat (nat (Rep_gf257 s)) = s"
proof -
  have r: "Rep_gf257 s \<in> {0..<257}" by (rule Rep_gf257)
  have "Rep_gf257 (of_nat (nat (Rep_gf257 s))) = int (nat (Rep_gf257 s)) mod 257"
    by (rule Rep_gf257_of_nat)
  also have "\<dots> = Rep_gf257 s"
    using r by simp
  finally show ?thesis by (simp only: Rep_gf257_inject)
qed

lemma of_nat_gf257_eq_0: "(of_nat n :: gf257) = 0 \<longleftrightarrow> 257 dvd n"
proof -
  have "(of_nat n :: gf257) = 0 \<longleftrightarrow> Rep_gf257 (of_nat n) = Rep_gf257 0"
    by (simp add: Rep_gf257_inject)
  also have "\<dots> \<longleftrightarrow> int n mod 257 = 0"
    by (simp add: Rep_gf257_of_nat zero_gf257.rep_eq)
  also have "\<dots> \<longleftrightarrow> 257 dvd n"
    by presburger
  finally show ?thesis .
qed

fun le_bytes :: "nat \<Rightarrow> nat \<Rightarrow> byte list" where
  "le_bytes 0 v = []"
| "le_bytes (Suc k) v = of_nat (v mod 256) # le_bytes k (v div 256)"

fun le_val :: "byte list \<Rightarrow> nat" where
  "le_val [] = 0"
| "le_val (b # bs) = unat b + 256 * le_val bs"

lemma length_le_bytes: "length (le_bytes k v) = k"
  by (induction k arbitrary: v) auto

lemma le_val_le_bytes: "v < 256 ^ k \<Longrightarrow> le_val (le_bytes k v) = v"
proof (induction k arbitrary: v)
  case 0
  then show ?case by simp
next
  case (Suc k)
  then have "v div 256 < 256 ^ k"
    by (simp add: less_mult_imp_div_less mult.commute)
  with Suc.IH have "le_val (le_bytes k (v div 256)) = v div 256" by blast
  moreover have "unat (of_nat (v mod 256) :: byte) = v mod 256"
    by (simp add: unat_of_nat)
  ultimately show ?case by simp
qed

lemma le_val_zeros: "le_val (replicate n 0) = 0"
  by (induction n) auto

definition gf257_decode :: "byte list \<Rightarrow> gf257 option" where
  "gf257_decode bs = (if length bs = 32 \<and> le_val bs < 257 then Some (of_nat (le_val bs)) else None)"

definition gf257_encode :: "gf257 \<Rightarrow> byte list" where
  "gf257_encode s = le_bytes 32 (nat (Rep_gf257 s))"

lemma gf257_decode_encode: "gf257_decode (gf257_encode s) = Some s"
proof -
  have r: "Rep_gf257 s \<in> {0..<257}" by (rule Rep_gf257)
  then have "nat (Rep_gf257 s) < 257" by auto
  moreover from this have "nat (Rep_gf257 s) < 256 ^ 32" by simp
  ultimately show ?thesis
    by (simp add: gf257_decode_def gf257_encode_def length_le_bytes le_val_le_bytes
        of_nat_Rep_gf257)
qed

lemma length_gf257_encode: "length (gf257_encode s) = 32"
  by (simp add: gf257_encode_def length_le_bytes)

definition lib257 :: "(gf257, gf257) ristretto255" where
  "lib257 =
     \<lparr>ScalarDecode = gf257_decode,
      ScalarEncode = gf257_encode,
      ScalarFromUniformBytes = (\<lambda>bs. of_nat (le_val bs)),
      ElementDecode = gf257_decode,
      ElementEncode = gf257_encode,
      ElementFromUniformBytes = (\<lambda>bs. of_nat (Suc (sum_list (map unat bs) mod 256))),
      ScalarMult = (\<lambda>s e. s * e),
      ScalarBaseMult = (\<lambda>s. s)\<rparr>"

lemma lib257_laws: "ristretto255_laws lib257"
  unfolding ristretto255_laws_def
proof (intro conjI allI impI)
  fix v :: byte
  have "unat v < 257" using u8_bound [of v] by simp
  then show "ScalarDecode lib257 (v # replicate 31 0) = Some (of_nat (unat v))"
    by (simp add: lib257_def gf257_decode_def le_val_zeros)
next
  fix n :: nat
  assume "0 < n \<and> n < 256"
  then have "\<not> 257 dvd n"
    by (auto dest: dvd_imp_le)
  then show "(of_nat n :: gf257) \<noteq> 0"
    by (simp add: of_nat_gf257_eq_0)
qed (simp_all add: lib257_def gf257_decode_encode length_gf257_encode algebra_simps)

definition hash_rev :: "byte list \<Rightarrow> byte list" where
  "hash_rev m = take 64 (rev m @ replicate 64 0)"

lemma hash_rev_laws: "sha512_laws hash_rev"
  by (auto simp: sha512_laws_def hash_rev_def)

section \<open>The hashing layer\<close>

lemma wrap64_id: "- (2 ^ 63) \<le> x \<Longrightarrow> x < 2 ^ 63 \<Longrightarrow> wrap64 x = x"
  by (simp add: wrap64_def int_word_sint)

lemma go_div_nonneg: "0 \<le> a \<Longrightarrow> 0 < b \<Longrightarrow> go_div a b = a div b"
  by (cases "a = 0") (simp_all add: go_div_def)

lemma xmd_loop_err: "xmd_loop H b0 dstPrime ell i bPrev ub = Inl e \<Longrightarrow> e = Panic"
proof (induction H b0 dstPrime ell i bPrev ub rule: xmd_loop.induct)
  case (1 H b0 dstPrime ell i bPrev ub)
  from "1.prems" show ?case
    apply (subst (asm) xmd_loop.simps)
    apply (auto simp: strxor_def Let_def split: if_splits intro: "1.IH")
    done
qed

lemma xmd_loop_ok:
  assumes "sha512_laws H" "length b0 = 64"
  shows "length bPrev = 64 \<Longrightarrow>
         \<exists>u. xmd_loop H b0 dstPrime ell i bPrev ub = Inr u \<and>
              length u = length ub + 64 * nat (ell + 1 - i)"
  using assms
proof (induction H b0 dstPrime ell i bPrev ub rule: xmd_loop.induct)
  case (1 H b0 dstPrime ell i bPrev ub)
  show ?case
  proof (cases "i \<le> ell")
    case False
    then show ?thesis
      by (subst xmd_loop.simps) simp
  next
    case True
    define xorResult where "xorResult = map (\<lambda>j. b0 ! j XOR bPrev ! j) [0..<64]"
    define bi where "bi = H (xorResult @ [word_of_int i] @ dstPrime)"
    have sx: "strxor b0 bPrev = Inr xorResult"
      using "1.prems" by (simp add: strxor_def xorResult_def)
    have len: "length bi = 64"
      using "1.prems" by (simp add: sha512_laws_def bi_def)
    from "1.IH" [OF True sx bi_def len "1.prems"(2,3)]
    obtain u where u: "xmd_loop H b0 dstPrime ell (i + 1) bi (ub @ bi) = Inr u"
      "length u = length (ub @ bi) + 64 * nat (ell + 1 - (i + 1))"
      by blast
    have "nat (ell + 1 - i) = Suc (nat (ell + 1 - (i + 1)))"
      using True by simp
    with u len have "length u = length ub + 64 * nat (ell + 1 - i)"
      by simp
    moreover have "xmd_loop H b0 dstPrime ell i bPrev ub = Inr u"
      using True sx u(1) by (subst xmd_loop.simps) (simp add: bi_def Let_def)
    ultimately show ?thesis by blast
  qed
qed

lemma expandMessageXMD_InvalidLength_iff:
  "expandMessageXMD H msg dst lenInBytes = Inl InvalidLength
     \<longleftrightarrow> 255 < go_div (wrap64 (lenInBytes + 64 - 1)) 64"
  by (auto simp: expandMessageXMD_def Let_def split: sum.splits if_splits dest: xmd_loop_err)

lemma ell_in_range:
  assumes "0 \<le> lenInBytes" "lenInBytes \<le> 2 ^ 63 - 64"
  shows "go_div (wrap64 (lenInBytes + 64 - 1)) 64 = (lenInBytes + 63) div 64"
proof -
  have "wrap64 (lenInBytes + 64 - 1) = lenInBytes + 63"
    using assms by (subst wrap64_id) simp_all
  then show ?thesis
    using assms by (simp add: go_div_nonneg)
qed

lemma expandMessageXMD_ok:
  assumes "sha512_laws H" "0 \<le> lenInBytes" "lenInBytes \<le> 16320"
  shows "\<exists>out. expandMessageXMD H msg dst lenInBytes = Inr out \<and> length out = nat lenInBytes"
proof -
  define ell where "ell = (lenInBytes + 63) div 64"
  have ell: "go_div (wrap64 (lenInBytes + 64 - 1)) 64 = ell"
    unfolding ell_def using assms by (intro ell_in_range) simp_all
  have ell_bounds: "0 \<le> ell" "ell \<le> 255" "lenInBytes \<le> 64 * ell"
    using assms by (simp_all add: ell_def)
  define dstPrime where "dstPrime = dst @ [of_nat (length dst) :: byte]"
  define b0 where
    "b0 = H (replicate 128 0 @ msg @ PutUint16 (word_of_int lenInBytes) @ [0] @ dstPrime)"
  define b1 where "b1 = H (b0 @ [1] @ dstPrime)"
  have l0: "length b0 = 64" and l1: "length b1 = 64"
    using assms(1) by (simp_all add: sha512_laws_def b0_def b1_def)
  from xmd_loop_ok [OF assms(1) l0 l1, of dstPrime ell 2 b1]
  obtain u where u: "xmd_loop H b0 dstPrime ell 2 b1 b1 = Inr u"
    "length u = length b1 + 64 * nat (ell + 1 - 2)"
    by blast
  have "lenInBytes \<le> int (length u)"
    using u(2) l1 ell_bounds by (cases "ell = 0") auto
  then have "expandMessageXMD H msg dst lenInBytes = Inr (take (nat lenInBytes) u)"
                 "length (take (nat lenInBytes) u) = nat lenInBytes"
    using u(1) [unfolded b1_def b0_def dstPrime_def] ell ell_bounds assms(2)
    by (simp_all add: expandMessageXMD_def Let_def)
  then show ?thesis by blast
qed

section \<open>Shamir sharing\<close>

lemma gen_coeffs_err: "gen_coeffs R rnd i len = Inl e \<Longrightarrow> e = RandomnessFailure"
  by (induction len arbitrary: i e) (auto split: option.splits sum.splits)

lemma share_loop_err:
  "share_loop R secret coeffs threshold n i shares = Inl e \<Longrightarrow> e = Panic"
proof (induction R secret coeffs threshold n i shares rule: share_loop.induct)
  case (1 R secret coeffs threshold n i shares)
  from "1.prems" show ?case
    by (subst (asm) share_loop.simps) (auto split: if_splits intro: "1.IH")
qed

lemma u8_minus_one: "unat (- 1 :: 8 word) = 255"
  by (simp add: unsigned_minus_1_eq_mask mask_eq_exp_minus_1)

lemma unat_of_nat_u8: "j < 256 \<Longrightarrow> unat (of_nat j :: 8 word) = j"
  by (simp add: unat_of_nat)

definition make_share ::
  "('s::field, 'e) ristretto255 \<Rightarrow> 's \<Rightarrow> 's list \<Rightarrow> 8 word \<Rightarrow> nat \<Rightarrow> 's Share" where
  "make_share R secret coeffs threshold j =
     \<lparr>Index = of_nat j, Value = share_value secret coeffs threshold (scalarFromUint8 R (of_nat j))\<rparr>"

lemma share_loop_below_255:
  assumes "unat n < 255" "length shares = unat n" "k \<le> unat n"
  shows "share_loop R secret coeffs threshold n (of_nat (Suc k)) shares =
           Inr (take k shares @ map (make_share R secret coeffs threshold) [Suc k..<Suc (unat n)])"
  using assms(2,3)
proof (induction "unat n - k" arbitrary: k shares)
  case 0
  then have k: "k = unat n" by simp
  have "unat (of_nat (Suc k) :: 8 word) = Suc k"
    using assms(1) k by (intro unat_of_nat_u8) simp
  then have "\<not> (of_nat (Suc k) :: 8 word) \<le> n"
    using k by (simp add: word_le_nat_alt)
  then show ?case
    using 0 k by (subst share_loop.simps) simp
next
  case (Suc m)
  then have k: "k < unat n" by simp
  define i :: "8 word" where "i = of_nat (Suc k)"
  have ui: "unat i = Suc k"
    unfolding i_def using assms(1) k by (intro unat_of_nat_u8) simp
  have le: "i \<le> n"
    using k ui by (simp add: word_le_nat_alt)
  have i1: "i - 1 = of_nat k" and i2: "i + 1 = of_nat (Suc (Suc k))"
    by (simp_all add: i_def)
  have uk: "unat (of_nat k :: 8 word) = k"
    using assms(1) k by (intro unat_of_nat_u8) simp
  define shares' where "shares' = shares[k := make_share R secret coeffs threshold (Suc k)]"
  have "share_loop R secret coeffs threshold n i shares =
          share_loop R secret coeffs threshold n (of_nat (Suc (Suc k))) shares'"
    using le k uk
    by (subst share_loop.simps) (simp add: i1 i2 shares'_def make_share_def i_def)
  also have "\<dots> = Inr (take (Suc k) shares' @
       map (make_share R secret coeffs threshold) [Suc (Suc k)..<Suc (unat n)])"
    using Suc k by (intro Suc.hyps(1)) (simp_all add: shares'_def)
  also have "take (Suc k) shares' = take k shares @ [make_share R secret coeffs threshold (Suc k)]"
    using k Suc.prems(1) by (simp add: shares'_def take_Suc_conv_app_nth)
  also have "(take k shares @ [make_share R secret coeffs threshold (Suc k)]) @
       map (make_share R secret coeffs threshold) [Suc (Suc k)..<Suc (unat n)] =
     take k shares @ map (make_share R secret coeffs threshold) [Suc k..<Suc (unat n)]"
    using k by (simp add: upt_conv_Cons del: upt_Suc)
  finally show ?case
    by (simp only: i_def)
qed

lemma share_loop_255:
  assumes "k \<le> 255"
  shows "share_loop R secret coeffs threshold 255 (of_nat (Suc k)) shares = Inl Panic"
  using assms
proof (induction "255 - k" arbitrary: k shares)
  case 0
  then have "k = 255" by simp
  then have z: "(of_nat (Suc k) :: 8 word) = 0" by simp
  show ?case
    unfolding z by (subst share_loop.simps) (simp add: u8_minus_one)
next
  case (Suc m)
  then have k: "k < 255" by simp
  define i :: "8 word" where "i = of_nat (Suc k)"
  have ui: "unat i = Suc k"
    unfolding i_def using k by (intro unat_of_nat_u8) simp
  have le: "i \<le> 255"
    using k ui by (simp add: word_le_nat_alt)
  have i1: "i - 1 = of_nat k" and i2: "i + 1 = of_nat (Suc (Suc k))"
    by (simp_all add: i_def)
  have uk: "unat (of_nat k :: 8 word) = k"
    using k by (intro unat_of_nat_u8) simp
  have "share_loop R secret coeffs threshold 255 i shares =
          share_loop R secret coeffs threshold 255 (of_nat (Suc (Suc k)))
            (shares[k := make_share R secret coeffs threshold (Suc k)])"
    using le k uk
    by (subst share_loop.simps) (simp add: i1 i2 make_share_def i_def)
  also have "\<dots> = Inl Panic"
    using Suc k by (intro Suc.hyps(1)) simp_all
  finally show ?case by (simp add: i_def)
qed


lemma CreateShares_below_255:
  assumes "1 \<le> threshold" "threshold \<le> n" "unat n < 255"
    "gen_coeffs R rnd 0 (unat (threshold - 1)) = Inr coeffs"
  shows "CreateShares R rnd secret n threshold =
           Inr (map (make_share R secret coeffs threshold) [1..<Suc (unat n)])"
proof -
  have "\<not> threshold < 1" "\<not> n < threshold"
    using assms(1,2) by (simp_all add: word_le_nat_alt word_less_nat_alt)
  moreover have "share_loop R secret coeffs threshold n (of_nat (Suc 0))
        (replicate (unat n) \<lparr>Index = 0, Value = 0\<rparr>) =
      Inr (take 0 (replicate (unat n) \<lparr>Index = 0, Value = 0\<rparr>)
           @ map (make_share R secret coeffs threshold) [Suc 0..<Suc (unat n)])"
    using assms(3) by (intro share_loop_below_255) simp_all
  ultimately show ?thesis
    using assms(4) by (simp add: CreateShares_def)
qed

lemma le_bytes_0: "le_bytes k 0 = replicate k 0"
  by (induction k) auto

lemma gf257_encode_0: "gf257_encode 0 = replicate 32 0"
  by (simp add: gf257_encode_def zero_gf257.rep_eq le_bytes_0)

lemma gf257_decode_byte: "gf257_decode (v # replicate 31 0) = Some (of_nat (unat v))"
  using u8_bound [of v] by (simp add: gf257_decode_def le_val_zeros)

lemma scalarFromUint8_lib257: "scalarFromUint8 lib257 v = of_nat (unat v)"
  by (simp add: scalarFromUint8_def lib257_def gf257_decode_byte)

lemma scalarFromUint8_eq:
  "ristretto255_laws R \<Longrightarrow> scalarFromUint8 R v = of_nat (unat v)"
  by (simp add: scalarFromUint8_def ristretto255_laws_def)

lemma small_nonzero:
  fixes R :: "('s::field, 'e::ab_group_add) ristretto255"
  assumes "ristretto255_laws R" "0 < n" "n < 256"
  shows "(of_nat n :: 's) \<noteq> 0"
  using assms by (simp add: ristretto255_laws_def)

lemma gen_coeffs_ok:
  assumes "\<forall>i. rnd i \<noteq> None"
  shows "\<exists>coeffs. gen_coeffs R rnd i len = Inr coeffs \<and> length coeffs = len"
proof (induction len arbitrary: i)
  case 0
  show ?case by simp
next
  case (Suc len)
  from assms obtain randBytes where "rnd i = Some randBytes" by fastforce
  moreover from Suc [of "Suc i"] obtain coeffs
    where "gen_coeffs R rnd (Suc i) len = Inr coeffs" "length coeffs = len" by blast
  ultimately show ?case by simp
qed

section \<open>The protocol steps\<close>

lemma lib257_simps:
  "ScalarDecode lib257 = gf257_decode"
  "ScalarEncode lib257 = gf257_encode"
  "ScalarFromUniformBytes lib257 bs = of_nat (le_val bs)"
  "ElementDecode lib257 = gf257_decode"
  "ElementEncode lib257 = gf257_encode"
  "ElementFromUniformBytes lib257 bs = of_nat (Suc (sum_list (map unat bs) mod 256))"
  "ScalarMult lib257 s e = s * e"
  "ScalarBaseMult lib257 s = s"
  by (simp_all add: lib257_def)

lemma funpow_mult_power: "((\<lambda>p. p * j) ^^ m) a = a * (j :: 'a :: comm_monoid_mult) ^ m"
  by (induction m) (simp_all add: ac_simps)



lemma ElementDecode_Encode: "ristretto255_laws R \<Longrightarrow> ElementDecode R (ElementEncode R e) = Some e"
  by (simp add: ristretto255_laws_def)


lemma ScalarDecode_Encode: "ristretto255_laws R \<Longrightarrow> ScalarDecode R (ScalarEncode R s) = Some s"
  by (simp add: ristretto255_laws_def)

lemma length_ElementEncode: "ristretto255_laws R \<Longrightarrow> length (ElementEncode R e) = 32"
  by (simp add: ristretto255_laws_def)

lemma length_ScalarEncode: "ristretto255_laws R \<Longrightarrow> length (ScalarEncode R s) = 32"
  by (simp add: ristretto255_laws_def)

lemma ScalarMult_assoc:
  "ristretto255_laws R \<Longrightarrow> ScalarMult R a (ScalarMult R b e) = ScalarMult R (a * b) e"
  by (simp add: ristretto255_laws_def)

lemma ScalarMult_add_left:
  "ristretto255_laws R \<Longrightarrow> ScalarMult R (a + b) e = ScalarMult R a e + ScalarMult R b e"
  by (simp add: ristretto255_laws_def)

lemma ScalarMult_zero_left:
  assumes "ristretto255_laws R"
  shows "ScalarMult R 0 e = 0"
proof -
  have "ScalarMult R (0 + 0) e = ScalarMult R 0 e + ScalarMult R 0 e"
    by (rule ScalarMult_add_left [OF assms])
  then show ?thesis by simp
qed

lemma hashToGroup_ok:
  assumes "sha512_laws H"
  shows "\<exists>h0. hashToGroup R H msg = Inr h0"
proof -
  from expandMessageXMD_ok [OF assms, of 64 msg HashToGroupDST]
  obtain u where "expandMessageXMD H msg HashToGroupDST 64 = Inr u" by auto
  then show ?thesis by (simp add: hashToGroup_def)
qed

lemma oprf_steps:
  assumes R: "ristretto255_laws R" and h0: "hashToGroup R H x = Inr h0"
    and k: "length k = 32" "ScalarDecode R k = Some ks"
    and r: "length r = 32" "ScalarDecode R r = Some rs"
  shows "Blind R H rnd x (Some r) = Inr (r, ElementEncode R (ScalarMult R rs h0))"
    and "Evaluate R k (ElementEncode R (ScalarMult R rs h0)) =
           Inr (ElementEncode R (ScalarMult R (ks * rs) h0))"
    and "Unblind R r (ElementEncode R (ScalarMult R (ks * rs) h0)) =
           Inr (ElementEncode R (ScalarMult R (inverse rs * (ks * rs)) h0))"
  using h0 k r
  by (simp_all add: Blind_def Evaluate_def Unblind_def length_ElementEncode [OF R]
      ElementDecode_Encode [OF R] ScalarMult_assoc [OF R])

lemma Rep_gf257_numeral: "Rep_gf257 (numeral w) = numeral w mod 257"
  using Rep_gf257_of_nat [of "numeral w"] by simp

lemma gf257_encode_byte: "n < 256 \<Longrightarrow> gf257_encode (of_nat n) = of_nat n # replicate 31 0"
proof -
  assume n: "n < 256"
  have "le_bytes (Suc 31) n = of_nat (n mod 256) # le_bytes 31 (n div 256)"
    by (rule le_bytes.simps)
  with n have "le_bytes 32 n = of_nat n # replicate 31 0"
    by (simp add: le_bytes_0)
  with n show ?thesis
    by (simp add: gf257_encode_def Rep_gf257_of_nat)
qed

lemma gf257_decode_zeros: "gf257_decode (replicate 32 0) = Some 0"
  by (simp add: gf257_decode_def le_val_zeros)

lemma hashToGroup_lib257_empty: "hashToGroup lib257 hash_rev [] = Inr 48"
proof -
  have ell: "go_div (wrap64 127) 64 = 1"
    by (simp add: go_div_def wrap64_def)
  have "expandMessageXMD hash_rev [] HashToGroupDST 64 =
     Inr ([40, 50, 49, 53, 65, 72, 83, 45, 53, 53, 50, 111, 116, 116, 101, 114, 116, 115, 105,
           114, 45, 0, 45, 49, 86, 70, 82, 80, 79, 45, 112, 117, 111, 114, 71, 111, 84, 104, 115,
           97, 72, 1] @ replicate 20 0 @ [0, 64])"
    by (simp add: expandMessageXMD_def ell xmd_loop.simps Let_def HashToGroupDST_def bytes_of_def
        hash_rev_def PutUint16_def)
  then show ?thesis
    by (simp add: hashToGroup_def lib257_simps sum_list_replicate)
qed

section \<open>Polynomials and Lagrange interpolation\<close>

text \<open>
  The share values are the values of a polynomial, given by its coefficient list. A
  function that is a polynomial with \<open>n\<close> coefficients and has \<open>n\<close> distinct roots is
  zero; so interpolation through \<open>n\<close> distinct nodes reproduces every polynomial with at
  most \<open>n\<close> coefficients.
\<close>

fun horner :: "'a::field list \<Rightarrow> 'a \<Rightarrow> 'a" where
  "horner [] x = 0"
| "horner (c # cs) x = c + x * horner cs x"

definition poly_fun :: "nat \<Rightarrow> ('a::field \<Rightarrow> 'a) \<Rightarrow> bool" where
  "poly_fun n g \<longleftrightarrow> (\<exists>cs. length cs = n \<and> (\<forall>x. g x = horner cs x))"

lemma horner_append: "horner (cs @ ds) x = horner cs x + x ^ length cs * horner ds x"
  by (induction cs) (simp_all add: algebra_simps)

lemma horner_zeros: "horner (replicate k 0) x = 0"
  by (induction k) simp_all

lemma horner_map_times: "horner (map ((*) b) cs) x = b * horner cs x"
  by (induction cs) (simp_all add: algebra_simps)

lemma horner_map2_plus:
  "length cs = length ds \<Longrightarrow> horner (map2 (+) cs ds) x = horner cs x + horner ds x"
  by (induction cs ds rule: list_induct2) (simp_all add: algebra_simps)

lemma poly_fun_horner: "length cs \<le> n \<Longrightarrow> poly_fun n (horner cs)"
  unfolding poly_fun_def
  by (rule exI [of _ "cs @ replicate (n - length cs) 0"]) (simp add: horner_append horner_zeros)

lemma poly_fun_zero: "poly_fun n (\<lambda>x. 0)"
proof -
  have "horner [] = (\<lambda>x. 0 :: 'a)" by (rule ext) simp
  with poly_fun_horner [of "[] :: 'a list" n] show ?thesis by simp
qed

lemma poly_fun_const: "poly_fun (Suc n) (\<lambda>x. c)"
proof -
  have "horner [c] = (\<lambda>x. c)" by (rule ext) simp
  with poly_fun_horner [of "[c]" "Suc n"] show ?thesis by simp
qed

lemma poly_fun_add:
  assumes "poly_fun n g" "poly_fun n h"
  shows "poly_fun n (\<lambda>x. g x + h x)"
proof -
  from assms obtain cs ds where "length cs = n" "\<forall>x. g x = horner cs x"
    "length ds = n" "\<forall>x. h x = horner ds x"
    unfolding poly_fun_def by blast
  then have "length (map2 (+) cs ds) = n \<and> (\<forall>x. g x + h x = horner (map2 (+) cs ds) x)"
    by (simp add: horner_map2_plus)
  then show ?thesis
    unfolding poly_fun_def by blast
qed

lemma poly_fun_scale:
  assumes "poly_fun n g"
  shows "poly_fun n (\<lambda>x. b * g x)"
proof -
  from assms obtain cs where "length cs = n" "\<forall>x. g x = horner cs x"
    unfolding poly_fun_def by blast
  then have "length (map ((*) b) cs) = n \<and> (\<forall>x. b * g x = horner (map ((*) b) cs) x)"
    by (simp add: horner_map_times)
  then show ?thesis
    unfolding poly_fun_def by blast
qed

lemma poly_fun_shift:
  assumes "poly_fun n g"
  shows "poly_fun (Suc n) (\<lambda>x. x * g x)"
proof -
  from assms obtain cs where "length cs = n" "\<forall>x. g x = horner cs x"
    unfolding poly_fun_def by blast
  then have "length (0 # cs) = Suc n \<and> (\<forall>x. x * g x = horner (0 # cs) x)"
    by simp
  then show ?thesis
    unfolding poly_fun_def by blast
qed

lemma poly_fun_Suc:
  assumes "poly_fun n g"
  shows "poly_fun (Suc n) g"
proof -
  from assms obtain cs where "length cs = n" "\<forall>x. g x = horner cs x"
    unfolding poly_fun_def by blast
  then have "length (cs @ [0]) = Suc n \<and> (\<forall>x. g x = horner (cs @ [0]) x)"
    by (simp add: horner_append)
  then show ?thesis
    unfolding poly_fun_def by blast
qed

lemma poly_fun_linear_factor:
  assumes "poly_fun n g"
  shows "poly_fun (Suc n) (\<lambda>x. g x * (b - x))"
proof -
  have "poly_fun (Suc n) (\<lambda>x. b * g x + (- 1) * (x * g x))"
    by (intro poly_fun_add poly_fun_scale poly_fun_shift poly_fun_Suc assms)
  then show ?thesis
    by (simp add: algebra_simps)
qed

lemma poly_fun_prod_list:
  "poly_fun (Suc (length bs)) (\<lambda>x. prod_list (map (\<lambda>b. b - x) bs))"
proof (induction bs)
  case Nil
  show ?case using poly_fun_const [of 0 1] by simp
next
  case (Cons b bs)
  from poly_fun_linear_factor [OF Cons, of b] show ?case
    by (simp add: mult.commute)
qed

lemma poly_fun_sum_list:
  "(\<And>a. a \<in> set xs \<Longrightarrow> poly_fun n (t a)) \<Longrightarrow> poly_fun n (\<lambda>x. sum_list (map (\<lambda>a. t a x) xs))"
proof (induction xs)
  case Nil
  show ?case by (simp add: poly_fun_zero)
next
  case (Cons a xs)
  then have "poly_fun n (\<lambda>x. t a x + sum_list (map (\<lambda>a. t a x) xs))"
    by (intro poly_fun_add) simp_all
  then show ?case by simp
qed

text \<open>The factor theorem, on coefficient lists.\<close>

lemma horner_factor:
  "\<exists>qs r. length qs = length cs \<and> (\<forall>x. horner (c # cs) x = r + (x - a) * horner qs x)"
proof (induction cs arbitrary: c)
  case Nil
  show ?case by (intro exI [of _ "[]"] exI [of _ c]) simp
next
  case (Cons d cs)
  from Cons [of d] obtain qs r where qs: "length qs = length cs"
    "\<forall>x. horner (d # cs) x = r + (x - a) * horner qs x" by blast
  have "\<forall>x. horner (c # d # cs) x = (c + a * r) + (x - a) * horner (r # qs) x"
  proof
    fix x
    have "horner (c # d # cs) x = c + x * horner (d # cs) x" by simp
    also have "\<dots> = c + x * (r + (x - a) * horner qs x)" using qs(2) by simp
    also have "\<dots> = (c + a * r) + (x - a) * horner (r # qs) x"
      by (simp add: algebra_simps)
    finally show "horner (c # d # cs) x = (c + a * r) + (x - a) * horner (r # qs) x" .
  qed
  with qs(1) show ?case
    by (intro exI [of _ "r # qs"] exI [of _ "c + a * r"]) simp
qed

lemma poly_fun_roots:
  assumes "poly_fun (length as) g" "distinct as" "\<forall>a\<in>set as. g a = 0"
  shows "g x = 0"
  using assms
proof (induction as arbitrary: g)
  case Nil
  then show ?case by (simp add: poly_fun_def)
next
  case (Cons a as)
  from Cons.prems(1) obtain c cs where cs: "length cs = length as" "\<forall>x. g x = horner (c # cs) x"
    unfolding poly_fun_def by (auto simp: length_Suc_conv)
  from horner_factor [of cs c a] obtain qs r where qs: "length qs = length cs"
    "\<forall>x. horner (c # cs) x = r + (x - a) * horner qs x" by blast
  have "g a = 0" using Cons.prems(3) by simp
  with cs(2) qs(2) have r: "r = 0"
    by (metis add.right_neutral cancel_comm_monoid_add_class.diff_cancel mult_zero_left)
  have fac: "g y = (y - a) * horner qs y" for y
    using cs(2) qs(2) r by simp
  have "horner qs x = 0"
  proof (rule Cons.IH)
    show "poly_fun (length as) (horner qs)"
      using qs(1) cs(1) by (intro poly_fun_horner) simp
    show "distinct as" using Cons.prems(2) by simp
    show "\<forall>b\<in>set as. horner qs b = 0"
    proof
      fix b assume b: "b \<in> set as"
      then have "b \<noteq> a" using Cons.prems(2) by auto
      moreover have "(b - a) * horner qs b = 0"
        using Cons.prems(3) b fac [of b] by simp
      ultimately show "horner qs b = 0" by simp
    qed
  qed
  then show ?case by (simp add: fac)
qed


definition lagrange_basis :: "'a::field list \<Rightarrow> 'a \<Rightarrow> 'a \<Rightarrow> 'a" where
  "lagrange_basis xs a x =
     prod_list (map (\<lambda>b. b - x) (removeAll a xs))
       * inverse (prod_list (map (\<lambda>b. b - a) (removeAll a xs)))"

lemma lagrange_basis_self:
  "lagrange_basis xs a a = 1"
proof -
  have "0 \<notin> set (map (\<lambda>b. b - a) (removeAll a xs))"
    by auto
  then have "prod_list (map (\<lambda>b. b - a) (removeAll a xs)) \<noteq> 0"
    by (simp only: prod_list_zero_iff) simp
  then show ?thesis
    by (simp add: lagrange_basis_def)
qed

lemma lagrange_basis_other:
  assumes "c \<in> set xs" "c \<noteq> a"
  shows "lagrange_basis xs a c = 0"
proof -
  have "0 \<in> set (map (\<lambda>b. b - c) (removeAll a xs))"
    using assms by (auto intro!: image_eqI [where x = c])
  then have "prod_list (map (\<lambda>b. b - c) (removeAll a xs)) = 0"
    by (simp only: prod_list_zero_iff)
  then show ?thesis
    by (simp add: lagrange_basis_def)
qed

lemma sum_list_delta:
  "distinct xs \<Longrightarrow> c \<in> set xs \<Longrightarrow> sum_list (map (\<lambda>a. if a = c then f a else 0) xs) = (f c :: 'a :: field)"
proof (induction xs)
  case Nil
  then show ?case by simp
next
  case (Cons a xs)
  show ?case
  proof (cases "a = c")
    case True
    with Cons.prems have "c \<notin> set xs" by simp
    then have "sum_list (map (\<lambda>a. if a = c then f a else 0) xs) = 0"
      by (induction xs) auto
    with True show ?thesis by simp
  next
    case False
    with Cons show ?thesis by simp
  qed
qed

lemma length_removeAll_distinct:
  "distinct xs \<Longrightarrow> a \<in> set xs \<Longrightarrow> Suc (length (removeAll a xs)) = length xs"
  by (induction xs) auto

lemma lagrange_interpolation:
  assumes "distinct xs" "length cs \<le> length xs"
  shows "sum_list (map (\<lambda>a. lagrange_basis xs a x * horner cs a) xs) = horner cs x"
proof -
  define g where
    "g = (\<lambda>x. sum_list (map (\<lambda>a. lagrange_basis xs a x * horner cs a) xs) + (- 1) * horner cs x)"
  have tm: "poly_fun (length xs) (\<lambda>x. lagrange_basis xs a x * horner cs a)" if "a \<in> set xs" for a
  proof -
    define w where "w = inverse (prod_list (map (\<lambda>b. b - a) (removeAll a xs))) * horner cs a"
    have "poly_fun (Suc (length (removeAll a xs))) (\<lambda>x. prod_list (map (\<lambda>b. b - x) (removeAll a xs)))"
      by (rule poly_fun_prod_list)
    then have "poly_fun (length xs) (\<lambda>x. w * prod_list (map (\<lambda>b. b - x) (removeAll a xs)))"
      using that assms(1) by (intro poly_fun_scale) (simp add: length_removeAll_distinct)
    then show ?thesis
      by (simp add: lagrange_basis_def w_def mult_ac)
  qed
  have "poly_fun (length xs) g"
    unfolding g_def
    by (intro poly_fun_add poly_fun_sum_list tm poly_fun_scale poly_fun_horner assms(2))
  moreover have "\<forall>c\<in>set xs. g c = 0"
  proof
    fix c assume c: "c \<in> set xs"
    have eq: "map (\<lambda>a. lagrange_basis xs a c * horner cs a) xs =
          map (\<lambda>a. if a = c then horner cs a else 0) xs"
      using c by (intro map_cong refl) (auto simp: lagrange_basis_self lagrange_basis_other)
    show "g c = 0"
      unfolding g_def eq sum_list_delta [OF assms(1) c] by simp
  qed
  ultimately have "g x = 0"
    using assms(1) by (intro poly_fun_roots [of xs]) simp_all
  then show ?thesis
    by (simp add: g_def)
qed

section \<open>Sharing and threshold evaluation for \<open>n\<close> below 255\<close>

text \<open>
  For \<open>n\<close> up to 254 the loop of \<open>CreateShares\<close> ends and the call returns its shares
  (\<open>CreateShares_returns_below_255\<close>), and the two properties of the
  specification hold: any \<open>threshold\<close> of the shares interpolate to the secret
  (\<open>shamir_recovery_below_255\<close>), and the parts evaluated by any \<open>threshold\<close> of the
  shares combine to the evaluation under the secret (\<open>threshold_correct_below_255\<close>).
\<close>

lemma of_nat_u8_inj:
  fixes R :: "('s::field, 'e::ab_group_add) ristretto255"
  assumes "ristretto255_laws R" "a < 256" "b < 256" "(of_nat a :: 's) = of_nat b"
  shows "a = b"
proof -
  have aux: "c = d" if "c \<le> d" "d < 256" "(of_nat c :: 's) = of_nat d" for c d :: nat
  proof (rule ccontr)
    assume "c \<noteq> d"
    with that have "0 < d - c" "d - c < 256" by simp_all
    then have "(of_nat (d - c) :: 's) \<noteq> 0"
      using assms(1) by (intro small_nonzero)
    moreover have "(of_nat (d - c) :: 's) = of_nat d - of_nat c"
      using that(1) by (simp add: of_nat_diff)
    ultimately show False using that(3) by simp
  qed
  show ?thesis
  proof (cases "a \<le> b")
    case True
    with assms show ?thesis by (intro aux)
  next
    case False
    with assms have "b = a" by (intro aux) simp_all
    then show ?thesis by simp
  qed
qed

lemma scalarFromUint8_inj:
  assumes "ristretto255_laws R"
  shows "scalarFromUint8 R v = scalarFromUint8 R w \<longleftrightarrow> v = w"
proof
  assume "scalarFromUint8 R v = scalarFromUint8 R w"
  then have "unat v = unat w"
    using u8_bound [of v] u8_bound [of w]
    by (intro of_nat_u8_inj [OF assms]) (simp_all add: scalarFromUint8_eq [OF assms])
  then show "v = w" by (simp add: word_eq_iff_unsigned [where ?'a = nat])
qed simp

lemma lcoeff_loop_prod:
  "lcoeff_loop R xScalar iScalar index peers (dividend, divisor) =
     (dividend * prod_list (map (\<lambda>p. scalarFromUint8 R p - xScalar) (filter (\<lambda>p. p \<noteq> index) peers)),
      divisor * prod_list (map (\<lambda>p. scalarFromUint8 R p - iScalar) (filter (\<lambda>p. p \<noteq> index) peers)))"
  by (induction peers arbitrary: dividend divisor) (simp_all add: Let_def mult.assoc)

lemma removeAll_map_inj:
  assumes "\<And>x. f x = f a \<longleftrightarrow> x = a"
  shows "removeAll (f a) (map f xs) = map f (filter (\<lambda>p. p \<noteq> a) xs)"
proof (induction xs)
  case Nil
  show ?case by simp
next
  case (Cons y ys)
  show ?case
  proof (cases "y = a")
    case True
    with Cons show ?thesis by simp
  next
    case False
    then have "f y \<noteq> f a" using assms [of y] by simp
    with False Cons show ?thesis by simp
  qed
qed


lemma lcoeff_lagrange_basis:
  assumes "ristretto255_laws R"
  shows "lcoeff R index x peers =
           lagrange_basis (map (scalarFromUint8 R) peers) (scalarFromUint8 R index) (scalarFromUint8 R x)"
proof -
  have one: "scalarFromUint8 R 1 = 1"
    by (simp add: scalarFromUint8_eq [OF assms])
  have rm: "removeAll (scalarFromUint8 R index) (map (scalarFromUint8 R) peers) =
      map (scalarFromUint8 R) (filter (\<lambda>p. p \<noteq> index) peers)"
    by (rule removeAll_map_inj) (rule scalarFromUint8_inj [OF assms])
  have "lcoeff R index x peers =
      (1 * prod_list (map (\<lambda>p. scalarFromUint8 R p - scalarFromUint8 R x) (filter (\<lambda>p. p \<noteq> index) peers)))
      * inverse (1 * prod_list (map (\<lambda>p. scalarFromUint8 R p - scalarFromUint8 R index) (filter (\<lambda>p. p \<noteq> index) peers)))"
    unfolding lcoeff_def Let_def lcoeff_loop_prod one by simp
  then show ?thesis
    unfolding lagrange_basis_def rm by (simp add: comp_def)
qed


lemma interpolate_loop_sum:
  fixes shares :: "'s::field Share list"
  shows "interpolate_loop R x indexes shares result =
     result + sum_list (map (\<lambda>share. lcoeff R (Index share) x indexes * Value share) shares)"
  by (induction shares arbitrary: result) (simp_all add: Let_def add.assoc)

lemma fold_add_sum: "fold (\<lambda>j val. val + f j) [0..<m] a = a + (\<Sum>j<m. f j :: 'a :: comm_monoid_add)"
  by (induction m) (simp_all add: add.assoc)

lemma horner_sum: "horner cs x = (\<Sum>j<length cs. cs ! j * x ^ j)"
proof (induction cs)
  case Nil
  show ?case by simp
next
  case (Cons c cs)
  have "(\<Sum>j<length (c # cs). (c # cs) ! j * x ^ j) =
        (c # cs) ! 0 * x ^ 0 + (\<Sum>j<length cs. (c # cs) ! Suc j * x ^ Suc j)"
    unfolding length_Cons by (rule sum.lessThan_Suc_shift)
  also have "\<dots> = c + x * (\<Sum>j<length cs. cs ! j * x ^ j)"
    by (simp add: sum_distrib_left mult_ac)
  finally show ?case
    using Cons by simp
qed

lemma share_value_horner:
  assumes "length coeffs = unat (threshold - 1)"
  shows "share_value secret coeffs threshold x = horner (secret # coeffs) x"
proof -
  have "share_value secret coeffs threshold x =
          secret + (\<Sum>j<length coeffs. coeffs ! j * x * x ^ j)"
    by (simp add: share_value_def fold_add_sum funpow_mult_power assms [symmetric])
  also have "\<dots> = secret + x * (\<Sum>j<length coeffs. coeffs ! j * x ^ j)"
    by (simp add: sum_distrib_left mult_ac)
  finally show ?thesis
    by (simp add: horner_sum [of coeffs])
qed


lemma gen_coeffs_length: "gen_coeffs R rnd i len = Inr coeffs \<Longrightarrow> length coeffs = len"
  by (induction len arbitrary: i coeffs) (auto split: option.splits sum.splits)

lemma CreateShares_Inr_below_255:
  assumes "CreateShares R rnd secret n threshold = Inr shares" "unat n < 255"
  obtains coeffs where "length coeffs = unat (threshold - 1)"
    and "shares = map (make_share R secret coeffs threshold) [1..<Suc (unat n)]"
    and "threshold \<noteq> 0" and "unat threshold \<le> unat n"
proof -
  from assms(1) have t: "\<not> threshold < 1" "\<not> n < threshold"
    by (auto simp: CreateShares_def split: if_splits)
  from assms(1) t obtain coeffs where g: "gen_coeffs R rnd 0 (unat (threshold - 1)) = Inr coeffs"
    by (auto simp: CreateShares_def split: sum.splits)
  have le: "1 \<le> threshold" "threshold \<le> n"
    using t by (simp_all only: not_less)
  from CreateShares_below_255 [OF le assms(2) g, of secret] assms(1)
  have "shares = map (make_share R secret coeffs threshold) [1..<Suc (unat n)]"
    by simp
  moreover have "threshold \<noteq> 0" using le(1) by auto
  moreover have "unat threshold \<le> unat n" using le(2) by (simp add: word_le_nat_alt)
  ultimately show thesis
    using that gen_coeffs_length [OF g] by blast
qed

text \<open>With valid parameters, \<open>n\<close> up to 254 and a working random source the call returns
  \<open>n\<close> shares.\<close>

lemma CreateShares_returns_below_255:
  assumes "1 \<le> threshold" "threshold \<le> n" "unat n < 255" "\<forall>i. rnd i \<noteq> None"
  shows "\<exists>shares. CreateShares R rnd secret n threshold = Inr shares \<and> length shares = unat n"
proof -
  from gen_coeffs_ok [OF assms(4), of R 0 "unat (threshold - 1)"]
  obtain coeffs where "gen_coeffs R rnd 0 (unat (threshold - 1)) = Inr coeffs" by blast
  from CreateShares_below_255 [OF assms(1-3) this, of secret] show ?thesis
    by simp
qed

lemma make_share_simps:
  "Index (make_share R secret coeffs threshold j) = of_nat j"
  "Value (make_share R secret coeffs threshold j) =
     share_value secret coeffs threshold (scalarFromUint8 R (of_nat j))"
  by (simp_all add: make_share_def)

lemma distinct_share_nodes:
  assumes "ristretto255_laws R" "distinct js" "\<forall>j\<in>set js. j < 256"
  shows "distinct (map (\<lambda>j. scalarFromUint8 R (of_nat j)) js)"
proof -
  have "inj_on (\<lambda>j. scalarFromUint8 R (of_nat j)) (set js)"
  proof (rule inj_onI)
    fix a b assume ab: "a \<in> set js" "b \<in> set js"
      and eq: "scalarFromUint8 R (of_nat a) = scalarFromUint8 R (of_nat b)"
    from eq have "(of_nat a :: 8 word) = of_nat b"
      by (simp add: scalarFromUint8_inj [OF assms(1)])
    then have "unat (of_nat a :: 8 word) = unat (of_nat b :: 8 word)" by simp
    with ab assms(3) show "a = b" by (simp add: unat_of_nat_u8)
  qed
  with assms(2) show ?thesis by (simp add: distinct_map)
qed

lemma interpolate_shares:
  assumes R: "ristretto255_laws R" and len: "length coeffs = unat (threshold - 1)"
    and t: "threshold \<noteq> 0"
    and js: "distinct js" "\<forall>j\<in>set js. j < 256" "unat threshold \<le> length js"
  shows "InterpolateScalar R x (map (make_share R secret coeffs threshold) js) =
           Inr (horner (secret # coeffs) (scalarFromUint8 R x))"
proof -
  define xs where "xs = map (\<lambda>j. scalarFromUint8 R (of_nat j)) js"
  define cs where "cs = secret # coeffs"
  have ut: "unat (threshold - 1) = unat threshold - 1"
    using t by (simp add: u8_pred)
  have pos: "0 < unat threshold"
    using t by (simp add: unat_gt_0)
  have lcs: "length cs \<le> length xs"
    using len ut pos js(3) by (simp add: cs_def xs_def)
  have dx: "distinct xs"
    unfolding xs_def by (rule distinct_share_nodes [OF R js(1,2)])
  have idx: "map Index (map (make_share R secret coeffs threshold) js) = map of_nat js"
    by (simp add: make_share_simps comp_def)
  have nodes: "map (scalarFromUint8 R) (map of_nat js) = xs"
    by (simp add: xs_def comp_def)
  have "sum_list (map (\<lambda>share. lcoeff R (Index share) x (map of_nat js) * Value share)
          (map (make_share R secret coeffs threshold) js)) =
        sum_list (map (\<lambda>a. lagrange_basis xs a (scalarFromUint8 R x) * horner cs a) xs)"
    by (simp add: lcoeff_lagrange_basis [OF R] nodes make_share_simps share_value_horner [OF len]
        comp_def xs_def cs_def)
  also have "\<dots> = horner cs (scalarFromUint8 R x)"
    by (rule lagrange_interpolation [OF dx lcs])
  finally have "interpolate_loop R x (map of_nat js) (map (make_share R secret coeffs threshold) js) 0 =
      horner cs (scalarFromUint8 R x)"
    by (simp add: interpolate_loop_sum)
  moreover have "js \<noteq> []"
    using pos js(3) by auto
  ultimately show ?thesis
    unfolding InterpolateScalar_def idx by (simp add: cs_def)
qed

lemma sublist_of_map:
  "set ys \<subseteq> f ` A \<Longrightarrow> \<exists>js. ys = map f js \<and> set js \<subseteq> A"
proof (induction ys)
  case Nil
  show ?case by simp
next
  case (Cons y ys)
  then obtain js where "ys = map f js" "set js \<subseteq> A" by auto
  moreover from Cons.prems obtain j where "y = f j" "j \<in> A" by auto
  ultimately have "y # ys = map f (j # js) \<and> set (j # js) \<subseteq> A" by simp
  then show ?case by (rule exI)
qed

lemma shamir_recovery_below_255:
  assumes "ristretto255_laws R"
    and "CreateShares R rnd secret n threshold = Inr shares" "unat n < 255"
    and "distinct S" "set S \<subseteq> set shares" "length S = unat threshold"
  shows "InterpolateScalar R 0 S = Inr secret"
proof -
  from CreateShares_Inr_below_255 [OF assms(2,3)] obtain coeffs
    where coeffs: "length coeffs = unat (threshold - 1)"
      and shares: "shares = map (make_share R secret coeffs threshold) [1..<Suc (unat n)]"
      and t: "threshold \<noteq> 0"
    by blast
  from assms(5) have "set S \<subseteq> make_share R secret coeffs threshold ` set [1..<Suc (unat n)]"
    by (simp add: shares)
  from sublist_of_map [OF this] obtain js
    where js: "S = map (make_share R secret coeffs threshold) js" "set js \<subseteq> set [1..<Suc (unat n)]"
    by blast
  have "distinct js"
    using assms(4) unfolding js(1) by (simp add: distinct_map)
  moreover have "\<forall>j\<in>set js. j < 256"
    using js(2) assms(3) by auto
  moreover have "unat threshold \<le> length js"
    using assms(6) by (simp add: js(1))
  ultimately have "InterpolateScalar R 0 S = Inr (horner (secret # coeffs) (scalarFromUint8 R 0))"
    unfolding js(1) by (intro interpolate_shares [OF assms(1) coeffs t])
  then show ?thesis
    by (simp add: scalarFromUint8_eq [OF assms(1)])
qed


lemma toprf_Evaluate_value:
  assumes "ristretto255_laws R" "length blinded = 32" "ElementDecode R blinded = Some a"
  shows "toprf_Evaluate R share blinded indexes =
           Inr (Index share # ElementEncode R (ScalarMult R (Value share * coeff R (Index share) indexes) a))"
  using assms(2,3)
  by (simp add: toprf_Evaluate_def Part_MarshalBinary_def Let_def length_ElementEncode [OF assms(1)])

lemma Part_Unmarshal_Marshal:
  assumes "ristretto255_laws R"
  shows "Part_UnmarshalBinary R (i # ElementEncode R e) = Inr \<lparr>PartIndex = i, Element = e\<rparr>"
  by (simp add: Part_UnmarshalBinary_def length_ElementEncode [OF assms]
      ElementDecode_Encode [OF assms])

lemma unmarshal_parts_map:
  fixes ps :: "'e::ab_group_add Part list"
  assumes "ristretto255_laws R"
  shows "unmarshal_parts R (map (\<lambda>p. PartIndex p # ElementEncode R (Element p)) ps) = Inr ps"
  by (induction ps) (simp_all add: Part_Unmarshal_Marshal [OF assms])

lemma sort_step_mset:
  "i < length ps \<Longrightarrow> j < length ps \<Longrightarrow>
     mset (sort_step ps i j) = mset ps \<and> length (sort_step ps i j) = length ps"
  by (simp add: sort_step_def mset_swap)

lemma sort_inner_mset:
  "i < length ps \<Longrightarrow> \<forall>j\<in>set js. j < length ps \<Longrightarrow>
     mset (fold (\<lambda>j ps'. sort_step ps' i j) js ps) = mset ps \<and>
     length (fold (\<lambda>j ps'. sort_step ps' i j) js ps) = length ps"
proof (induction js arbitrary: ps)
  case Nil
  show ?case by simp
next
  case (Cons j js)
  from Cons.prems have s: "mset (sort_step ps i j) = mset ps" "length (sort_step ps i j) = length ps"
    using sort_step_mset [of i ps j] by simp_all
  from Cons.prems s(2) have
    "mset (fold (\<lambda>j ps'. sort_step ps' i j) js (sort_step ps i j)) = mset (sort_step ps i j) \<and>
     length (fold (\<lambda>j ps'. sort_step ps' i j) js (sort_step ps i j)) = length (sort_step ps i j)"
    by (intro Cons.IH) simp_all
  with s show ?case by simp
qed

lemma sort_outer_mset:
  "\<forall>i\<in>set is. i < length ps \<Longrightarrow>
     mset (fold (\<lambda>i ps. fold (\<lambda>j ps'. sort_step ps' i j) [i + 1..<length ps] ps) is ps) = mset ps \<and>
     length (fold (\<lambda>i ps. fold (\<lambda>j ps'. sort_step ps' i j) [i + 1..<length ps] ps) is ps) = length ps"
proof (induction "is" arbitrary: ps)
  case Nil
  show ?case by simp
next
  case (Cons i "is")
  define ps' where "ps' = fold (\<lambda>j ps'. sort_step ps' i j) [i + 1..<length ps] ps"
  from Cons.prems have s: "mset ps' = mset ps" "length ps' = length ps"
    unfolding ps'_def using sort_inner_mset [of i ps "[i + 1..<length ps]"] by simp_all
  from Cons.prems s(2) have
    "mset (fold (\<lambda>i ps. fold (\<lambda>j ps'. sort_step ps' i j) [i + 1..<length ps] ps) is ps') = mset ps' \<and>
     length (fold (\<lambda>i ps. fold (\<lambda>j ps'. sort_step ps' i j) [i + 1..<length ps] ps) is ps') = length ps'"
    by (intro Cons.IH) simp_all
  with s show ?case by (simp add: ps'_def)
qed

lemma sort_parts_mset: "mset (sort_parts ps) = mset ps"
proof -
  have "\<forall>i\<in>set [0..<length ps - 1]. i < length ps" by auto
  from sort_outer_mset [OF this] show ?thesis
    by (simp add: sort_parts_def)
qed

lemma fold_add_sum_list:
  "fold (\<lambda>part result. result + f part) ps a = a + sum_list (map f ps :: 'a :: comm_monoid_add list)"
  by (induction ps arbitrary: a) (simp_all add: add.assoc)

lemma sum_list_map_mset:
  "mset xs = mset ys \<Longrightarrow> sum_list (map f xs) = sum_list (map f ys :: 'a :: comm_monoid_add list)"
  by (metis mset_map sum_mset_sum_list)

lemma ScalarMult_sum_list:
  assumes "ristretto255_laws R"
  shows "sum_list (map (\<lambda>s. ScalarMult R s a) ss) = ScalarMult R (sum_list ss) a"
  by (induction ss) (simp_all add: ScalarMult_zero_left [OF assms] ScalarMult_add_left [OF assms])

lemma ThresholdCombine_sum:
  fixes ps :: "'e::ab_group_add Part list"
  assumes "ristretto255_laws R" "ps \<noteq> []" "length ps \<le> 255"
  shows "ThresholdCombine R (map (\<lambda>p. PartIndex p # ElementEncode R (Element p)) ps) =
           Inr (ElementEncode R (sum_list (map Element ps)))"
proof -
  have "sum_list (map Element (sort_parts ps)) = sum_list (map Element ps)"
    by (rule sum_list_map_mset) (rule sort_parts_mset)
  then show ?thesis
    using assms(2,3)
    by (simp add: ThresholdCombine_def unmarshal_parts_map [OF assms(1)] fold_add_sum_list)
qed

lemma threshold_correct_below_255:
  fixes R :: "('s::field, 'e::ab_group_add) ristretto255"
  assumes R: "ristretto255_laws R"
    and cs: "CreateShares R rnd secret n threshold = Inr shares" "unat n < 255"
    and S: "distinct S" "set S \<subseteq> set shares" "length S = unat threshold"
    and alpha: "length alpha = 32" "ElementDecode R alpha = Some a"
  shows "\<exists>parts. map (\<lambda>share. toprf_Evaluate R share alpha (map Index S)) S = map Inr parts \<and>
           ThresholdCombine R parts = Evaluate R (ScalarEncode R secret) alpha \<and>
           ThresholdCombine R parts = Inr (ElementEncode R (ScalarMult R secret a))"
proof -
  define key where "key = (\<lambda>share :: 's Share. Value share * coeff R (Index share) (map Index S))"
  define ps where "ps = map (\<lambda>share. \<lparr>PartIndex = Index share, Element = ScalarMult R (key share) a\<rparr>) S"
  define parts where "parts = map (\<lambda>p. PartIndex p # ElementEncode R (Element p)) ps"
  from CreateShares_Inr_below_255 [OF cs] have t: "threshold \<noteq> 0" "unat threshold \<le> unat n"
    by blast+
  have len: "ps \<noteq> []" "length ps \<le> 255"
    using t cs(2) S(3) by (auto simp: ps_def unat_gt_0 [symmetric] simp del: unat_gt_0)
  have ev: "map (\<lambda>share. toprf_Evaluate R share alpha (map Index S)) S = map Inr parts"
    by (simp add: parts_def ps_def key_def toprf_Evaluate_value [OF R alpha] comp_def)
  from shamir_recovery_below_255 [OF R cs S] have "InterpolateScalar R 0 S = Inr secret" .
  then have "sum_list (map key S) = secret"
    by (simp add: InterpolateScalar_def interpolate_loop_sum key_def coeff_def mult.commute
        split: if_splits)
  moreover have "sum_list (map Element ps) = ScalarMult R (sum_list (map key S)) a"
    using ScalarMult_sum_list [OF R, of a "map key S"] by (simp add: ps_def comp_def)
  ultimately have "ThresholdCombine R parts = Inr (ElementEncode R (ScalarMult R secret a))"
    unfolding parts_def using ThresholdCombine_sum [OF R len] by simp
  moreover have "Evaluate R (ScalarEncode R secret) alpha = Inr (ElementEncode R (ScalarMult R secret a))"
    using alpha by (simp add: Evaluate_def length_ScalarEncode [OF R] ScalarDecode_Encode [OF R])
  ultimately show ?thesis
    using ev by auto
qed

section \<open>Results\<close>

text \<open>
  C1, as the code has it. For a key \<open>k\<close> and a blind \<open>r\<close> of 32 bytes that decode to scalars
  \<open>ks\<close> and \<open>rs\<close> with \<open>rs\<close> not zero, \<open>Blind\<close>, \<open>Evaluate\<close>, \<open>Unblind\<close> and
  \<open>Finalize\<close> all succeed, and the output is the output of \<open>Finalize\<close> on the encoding of
  \<open>ks\<close> times the hash of the input to the group; so it does not depend on \<open>r\<close>.
\<close>

theorem oprf_roundtrip:
  assumes "ristretto255_laws R" "sha512_laws H"
    and "length k = 32" "ScalarDecode R k = Some ks"
    and "length r = 32" "ScalarDecode R r = Some rs" "rs \<noteq> 0"
  shows "\<exists>h0 alpha beta N out.
           hashToGroup R H x = Inr h0 \<and>
           Blind R H rnd x (Some r) = Inr (r, alpha) \<and>
           Evaluate R k alpha = Inr beta \<and>
           Unblind R r beta = Inr N \<and>
           Finalize H x N = Inr out \<and>
           Finalize H x (ElementEncode R (ScalarMult R ks h0)) = Inr out"
proof -
  from hashToGroup_ok [OF assms(2), of R x] obtain h0 where h0: "hashToGroup R H x = Inr h0"
    by blast
  note steps = oprf_steps [OF assms(1) h0 assms(3-6)]
  have inv: "inverse rs * (ks * rs) = ks"
    using assms(7) by simp
  have N: "ElementEncode R (ScalarMult R (inverse rs * (ks * rs)) h0) =
      ElementEncode R (ScalarMult R ks h0)"
    unfolding inv ..
  obtain out where out: "Finalize H x (ElementEncode R (ScalarMult R ks h0)) = Inr out"
    by (simp add: Finalize_def length_ElementEncode [OF assms(1)])
  show ?thesis
  proof (intro exI conjI)
    show "hashToGroup R H x = Inr h0" by (rule h0)
    show "Blind R H rnd x (Some r) = Inr (r, ElementEncode R (ScalarMult R rs h0))"
      by (rule steps(1))
    show "Evaluate R k (ElementEncode R (ScalarMult R rs h0)) =
            Inr (ElementEncode R (ScalarMult R (ks * rs) h0))"
      by (rule steps(2))
    show "Unblind R r (ElementEncode R (ScalarMult R (ks * rs) h0)) =
            Inr (ElementEncode R (ScalarMult R ks h0))"
      unfolding steps(3) N ..
    show "Finalize H x (ElementEncode R (ScalarMult R ks h0)) = Inr out"
      by (rule out)
    show "Finalize H x (ElementEncode R (ScalarMult R ks h0)) = Inr out"
      by (rule out)
  qed
qed

theorem oprf_roundtrip_witness:
  "ristretto255_laws lib257 \<and> sha512_laws hash_rev \<and>
   length (1 # replicate 31 (0::byte)) = 32 \<and> ScalarDecode lib257 (1 # replicate 31 0) = Some 1 \<and>
   length (2 # replicate 31 (0::byte)) = 32 \<and> ScalarDecode lib257 (2 # replicate 31 0) = Some 2 \<and>
   (2 :: gf257) \<noteq> 0 \<and>
   (\<exists>h0 alpha beta N out.
      hashToGroup lib257 hash_rev [] = Inr h0 \<and>
      Blind lib257 hash_rev (\<lambda>i. None) [] (Some (2 # replicate 31 0)) = Inr (2 # replicate 31 0, alpha) \<and>
      Evaluate lib257 (1 # replicate 31 0) alpha = Inr beta \<and>
      Unblind lib257 (2 # replicate 31 0) beta = Inr N \<and>
      Finalize hash_rev [] N = Inr out \<and>
      Finalize hash_rev [] (ElementEncode lib257 (ScalarMult lib257 1 h0)) = Inr out)"
proof -
  have k: "length (1 # replicate 31 (0::byte)) = 32" "ScalarDecode lib257 (1 # replicate 31 0) = Some 1"
    using gf257_decode_byte [of 1] by (simp_all add: lib257_simps)
  have r: "length (2 # replicate 31 (0::byte)) = 32" "ScalarDecode lib257 (2 # replicate 31 0) = Some 2"
    using gf257_decode_byte [of 2] by (simp_all add: lib257_simps)
  have nz: "(2 :: gf257) \<noteq> 0"
    using of_nat_gf257_eq_0 [of 2] by simp
  from oprf_roundtrip [OF lib257_laws hash_rev_laws k r nz, where rnd = "\<lambda>i. None" and x = "[]"]
    lib257_laws hash_rev_laws k r nz
  show ?thesis by simp
qed

text \<open>
  The claim as stated fails for the blind \<open>r = 0\<close>, which is canonical: \<open>alpha\<close>,
  \<open>beta\<close> and the unblinded element are the identity, whatever the key.
\<close>

theorem oprf_roundtrip_zero_blind_counterexample:
  "ScalarDecode lib257 (replicate 32 0) = Some 0 \<and>
   hashToGroup lib257 hash_rev [] = Inr 48 \<and>
   Blind lib257 hash_rev (\<lambda>i. None) [] (Some (replicate 32 0)) = Inr (replicate 32 0, replicate 32 0) \<and>
   Evaluate lib257 (1 # replicate 31 0) (replicate 32 0) = Inr (replicate 32 0) \<and>
   Unblind lib257 (replicate 32 0) (replicate 32 0) = Inr (replicate 32 0) \<and>
   Finalize hash_rev [] (replicate 32 0)
     \<noteq> Finalize hash_rev [] (ElementEncode lib257 (ScalarMult lib257 1 48))"
proof -
  have k: "length (1 # replicate 31 (0::byte)) = 32" "ScalarDecode lib257 (1 # replicate 31 0) = Some 1"
    using gf257_decode_byte [of 1] by (simp_all add: lib257_simps)
  have r: "length (replicate 32 (0::byte)) = 32" "ScalarDecode lib257 (replicate 32 0) = Some 0"
    by (simp_all add: lib257_simps gf257_decode_zeros)
  note steps = oprf_steps [OF lib257_laws hashToGroup_lib257_empty k r]
  have enc0: "ElementEncode lib257 (ScalarMult lib257 a 0) = replicate 32 0"
     "ElementEncode lib257 (ScalarMult lib257 0 b) = replicate 32 0" for a b
    by (simp_all add: lib257_simps gf257_encode_0)
  have enc48: "ElementEncode lib257 (ScalarMult lib257 1 48) = 48 # replicate 31 0"
    using gf257_encode_byte [of 48] by (simp add: lib257_simps)
  have "replicate 32 (0::byte) = 0 # replicate 31 0"
    by (simp add: numeral_eq_Suc)
  then have "Finalize hash_rev [] (replicate 32 0) \<noteq> Finalize hash_rev [] (48 # replicate 31 0)"
    by (simp add: Finalize_def hash_rev_def FinalizeDST_def bytes_of_def PutUint16_def)
  with steps r(2) hashToGroup_lib257_empty show ?thesis
    by (simp add: enc0 enc48)
qed

text \<open>
  C2, at \<open>n = 255\<close>. \<open>CreateShares\<close> returns no list of shares for \<open>n = 255\<close>, whatever
  the threshold and the random coefficients: the byte counter of its loop wraps from 255
  to 0 and \<open>shares[i-1]\<close> is then out of range. So no parts can be evaluated and
  combined for \<open>n = 255\<close>.
\<close>

theorem CreateShares_255_no_shares:
  "CreateShares R rnd secret 255 threshold \<noteq> Inr shares"
proof -
  have "share_loop R secret coeffs threshold 255 (of_nat (Suc 0)) init = Inl Panic"
    for coeffs init
    by (rule share_loop_255) simp
  then show ?thesis
    by (simp add: CreateShares_def split: sum.splits)
qed

text \<open>
  C4, at \<open>n = 255\<close>. For every threshold from 1 to 255 and every random source whose
  reads succeed, \<open>CreateShares\<close> with \<open>n = 255\<close> panics, so there are no shares to
  interpolate.
\<close>

theorem CreateShares_255_panics:
  assumes "threshold \<noteq> 0" "\<forall>i. rnd i \<noteq> None"
  shows "CreateShares R rnd secret 255 threshold = Inl Panic"
proof -
  have "\<not> threshold < 1"
    using assms(1) by (simp add: word_less_nat_alt unat_gt_0 [symmetric] del: unat_gt_0)
  moreover have "\<not> 255 < threshold"
    using u8_bound [of threshold] by (simp add: word_less_nat_alt)
  moreover from gen_coeffs_ok [OF assms(2), of R 0 "unat (threshold - 1)"]
  obtain coeffs where "gen_coeffs R rnd 0 (unat (threshold - 1)) = Inr coeffs" by blast
  moreover have "share_loop R secret coeffs threshold 255 (of_nat (Suc 0)) shares = Inl Panic"
    for coeffs shares
    by (rule share_loop_255) simp
  ultimately show ?thesis
    by (simp add: CreateShares_def)
qed

theorem CreateShares_255_panics_witness:
  "(2 :: 8 word) \<noteq> 0 \<and> (\<forall>i. (\<lambda>i. Some []) i \<noteq> (None :: byte list option)) \<and>
   CreateShares lib257 (\<lambda>i. Some []) 7 255 2 = Inl Panic"
proof -
  have two: "(2 :: 8 word) \<noteq> 0" by simp
  have rnd: "\<forall>i. (\<lambda>i. Some []) i \<noteq> (None :: byte list option)" by simp
  from CreateShares_255_panics [OF two rnd, of lib257 7] two show ?thesis by simp
qed



text \<open>
  C6. For the peer set \<open>{1, 2, 3}\<close> the reconstruction coefficients are the scalar 3 for
  peer 1, the scalar \<open>- 3\<close> (the negation of 3 in the scalar field) for peer 2, and the
  scalar 1 for peer 3.
\<close>

theorem lagrange_sanity:
  fixes R :: "('s::field, 'e::ab_group_add) ristretto255"
  assumes "ristretto255_laws R"
  shows "coeff R 1 [1, 2, 3] = 3 \<and>
         coeff R 2 [1, 2, 3] = - 3 \<and>
         coeff R 3 [1, 2, 3] = 1"
proof -
  have two: "(2::'s) \<noteq> 0"
    using small_nonzero [OF assms, of 2] by simp
  have c1: "coeff R 1 [1, 2, 3] = (1 * (2 - 0) * (3 - 0)) * inverse (1 * (2 - 1) * (3 - 1))"
   and c2: "coeff R 2 [1, 2, 3] = (1 * (1 - 0) * (3 - 0)) * inverse (1 * (1 - 2) * (3 - 2))"
   and c3: "coeff R 3 [1, 2, 3] = (1 * (1 - 0) * (2 - 0)) * inverse (1 * (1 - 3) * (2 - 3))"
    by (simp_all add: coeff_def lcoeff_def scalarFromUint8_eq [OF assms])
  have e1: "(1 * (2 - 0) * (3 - 0)) * inverse (1 * (2 - 1) * (3 - 1)) = (3::'s)"
    using two by (simp add: field_simps)
  have e2: "(1 * (1 - 0) * (3 - 0)) * inverse (1 * (1 - 2) * (3 - 2)) = - (3::'s)"
    by simp
  have e3: "(1 * (1 - 0) * (2 - 0)) * inverse (1 * (1 - 3) * (2 - 3)) = (1::'s)"
    using two by (simp add: field_simps)
  from e1 e2 e3 show ?thesis
    by (simp only: c1 c2 c3)
qed

theorem lagrange_sanity_witness:
  "ristretto255_laws lib257 \<and>
   coeff lib257 1 [1, 2, 3] = 3 \<and>
   coeff lib257 2 [1, 2, 3] = - 3 \<and>
   coeff lib257 3 [1, 2, 3] = 1"
  using lagrange_sanity [OF lib257_laws] lib257_laws by simp

text \<open>
  C7, as the code has it. For a length \<open>lenInBytes\<close> from 0 to \<open>2^63 - 64\<close>,
  \<open>expandMessageXMD\<close> returns its length error exactly when \<open>lenInBytes\<close> exceeds
  \<open>255 * 64\<close>, whatever the length of \<open>dst\<close>, and returns \<open>lenInBytes\<close> bytes
  otherwise; \<open>Finalize\<close> returns its length error exactly when \<open>n\<close> does not have 32
  bytes, whatever the length of the input, and returns 64 bytes otherwise.
\<close>

theorem hashing_failure_modes:
  assumes "sha512_laws H" "0 \<le> lenInBytes" "lenInBytes \<le> 2 ^ 63 - 64"
  shows "(expandMessageXMD H msg dst lenInBytes = Inl InvalidLength \<longleftrightarrow> 255 * 64 < lenInBytes) \<and>
         (lenInBytes \<le> 255 * 64 \<longrightarrow>
            (\<exists>out. expandMessageXMD H msg dst lenInBytes = Inr out \<and> length out = nat lenInBytes)) \<and>
         (Finalize H x n = Inl InvalidLength \<longleftrightarrow> length n \<noteq> 32) \<and>
         (length n = 32 \<longrightarrow> (\<exists>out. Finalize H x n = Inr out \<and> length out = 64))"
proof (intro conjI impI)
  show "expandMessageXMD H msg dst lenInBytes = Inl InvalidLength \<longleftrightarrow> 255 * 64 < lenInBytes"
    unfolding expandMessageXMD_InvalidLength_iff ell_in_range [OF assms(2,3)] by auto
  show "\<exists>out. expandMessageXMD H msg dst lenInBytes = Inr out \<and> length out = nat lenInBytes"
    if "lenInBytes \<le> 255 * 64"
    using that assms by (intro expandMessageXMD_ok) simp_all
  show "Finalize H x n = Inl InvalidLength \<longleftrightarrow> length n \<noteq> 32"
    by (simp add: Finalize_def)
  show "\<exists>out. Finalize H x n = Inr out \<and> length out = 64" if "length n = 32"
    using that assms(1) by (simp add: Finalize_def sha512_laws_def)
qed

theorem hashing_failure_modes_witness:
  "sha512_laws hash_rev \<and> (0::int) \<le> 64 \<and> (64::int) \<le> 2 ^ 63 - 64 \<and>
   (\<exists>out. expandMessageXMD hash_rev [] (replicate 256 0) 64 = Inr out \<and> length out = 64) \<and>
   (\<exists>out. Finalize hash_rev (replicate 65536 0) (replicate 32 0) = Inr out \<and> length out = 64)"
  using hashing_failure_modes [OF hash_rev_laws, of 64 "[]" "replicate 256 0" "replicate 65536 0"
      "replicate 32 0"] hash_rev_laws
  by simp

text \<open>
  The claim as stated fails: a \<open>dst\<close> of 256 bytes and an input of 65536 bytes are both
  accepted.
\<close>

theorem hashing_failure_modes_counterexample:
  "255 < length (replicate 256 (0::byte)) \<and>
   expandMessageXMD hash_rev [] (replicate 256 0) 64 \<noteq> Inl InvalidLength \<and>
   65535 < length (replicate 65536 (0::byte)) \<and>
   Finalize hash_rev (replicate 65536 0) (replicate 32 0) \<noteq> Inl InvalidLength"
proof -
  have "go_div (wrap64 (64 + 64 - 1)) 64 = 1"
    by (simp add: go_div_def wrap64_def)
  then have "expandMessageXMD hash_rev [] (replicate 256 0) 64 \<noteq> Inl InvalidLength"
    by (simp add: expandMessageXMD_InvalidLength_iff)
  then show ?thesis
    by (simp add: Finalize_def)
qed

text \<open>
  C8, as the code has it. \<open>CreateShares\<close> returns the error for invalid parameters
  exactly when \<open>threshold < 1\<close> or \<open>n < threshold\<close>.
\<close>

theorem CreateShares_InvalidParameters_iff:
  "CreateShares R rnd secret n threshold = Inl InvalidParameters \<longleftrightarrow> threshold < 1 \<or> n < threshold"
  by (auto simp: CreateShares_def split: sum.splits dest: gen_coeffs_err share_loop_err)

text \<open>
  The claim as stated fails: with \<open>threshold = 1\<close> and \<open>n = 3\<close> three shares are
  returned, each holding the secret.
\<close>

theorem CreateShares_threshold_1_counterexample:
  "CreateShares lib257 (\<lambda>i. None) 5 3 1 =
     Inr [\<lparr>Index = 1, Value = 5\<rparr>, \<lparr>Index = 2, Value = 5\<rparr>, \<lparr>Index = 3, Value = 5\<rparr>]"
proof -
  have "CreateShares lib257 (\<lambda>i. None) 5 3 1 =
          Inr (map (make_share lib257 5 [] 1) [1..<Suc (unat (3 :: 8 word))])"
    by (rule CreateShares_below_255) simp_all
  moreover have "[Suc 0..<4] = [1, 2, 3]"
    by (simp add: upt_rec)
  ultimately show ?thesis
    by (simp add: make_share_def share_value_def)
qed

text \<open>
  C9, as the code has it. \<open>toprf.Evaluate\<close> does not inspect the peer list: for a
  blinded element of 32 bytes that decodes, it returns a part of 33 bytes that starts with
  the index of the share, for every share and every peer list.
\<close>

theorem toprf_Evaluate_any_peers:
  assumes "length blinded = 32" "ElementDecode R blinded = Some alpha"
  shows "\<exists>part. toprf_Evaluate R share blinded indexes = Inr part \<and> length part = 33 \<and>
           hd part = Index share"
  using assms by (simp add: toprf_Evaluate_def Part_MarshalBinary_def Let_def)

theorem toprf_Evaluate_any_peers_witness:
  "length (replicate 32 (0::byte)) = 32 \<and>
   ElementDecode lib257 (replicate 32 0) = Some 0 \<and>
   (\<exists>part. toprf_Evaluate lib257 \<lparr>Index = 1, Value = 1\<rparr> (replicate 32 0) [1, 1, 0] = Inr part
      \<and> length part = 33 \<and> hd part = 1)"
proof -
  have dec: "ElementDecode lib257 (replicate 32 0) = Some 0"
    by (simp add: lib257_simps gf257_decode_zeros)
  have len: "length (replicate 32 (0::byte)) = 32" by simp
  from toprf_Evaluate_any_peers [OF len dec, of "\<lparr>Index = 1, Value = 1\<rparr>" "[1, 1, 0]"] dec
  show ?thesis by simp
qed

text \<open>
  The claim as stated fails: for the blinded element of 32 zero bytes, the encoding of
  the identity, the peer list \<open>[1, 1, 0]\<close>, with a duplicate and the index 0, is
  accepted, and a part is returned.
\<close>

theorem toprf_Evaluate_any_peers_counterexample:
  "ElementDecode lib257 (replicate 32 0) = Some 0 \<and>
   toprf_Evaluate lib257 \<lparr>Index = 1, Value = 1\<rparr> (replicate 32 0) [1, 1, 0]
     = Inr (1 # replicate 32 0)"
proof -
  have dec: "ElementDecode lib257 (replicate 32 0) = Some 0"
    by (simp add: lib257_simps gf257_decode_zeros)
  have c: "coeff lib257 1 [1, 1, 0] = 0"
    by (simp add: coeff_def lcoeff_def scalarFromUint8_lib257)
  have enc: "ElementEncode lib257 (ScalarMult lib257 0 0) = replicate 32 0"
    by (simp add: lib257_def gf257_encode_0)
  have "toprf_Evaluate lib257 \<lparr>Index = 1, Value = 1\<rparr> (replicate 32 0) [1, 1, 0]
     = Inr (1 # replicate 32 0)"
    by (simp add: toprf_Evaluate_def Part_MarshalBinary_def dec c enc)
  with dec show ?thesis by simp
qed

text \<open>
  C10. \<open>Finish\<close> called with an empty list of shares returns no error: the result is the
  share with index \<open>self\<close> and the zero scalar as value.
\<close>

theorem Finish_empty: "Finish [] self = Inr \<lparr>Index = self, Value = 0\<rparr>"
  by (simp add: Finish_def)

end
